theory Spec2Isabelle
  imports Main
begin

section \<open>Strings as the source uses them\<close>

text \<open>Python's \<open>str.lower\<close>, on the ASCII letters the tokenizer admits.\<close>

definition lower_char :: "char \<Rightarrow> char" where
  "lower_char c =
     (let n = (of_char c :: nat) in if 65 \<le> n \<and> n \<le> 90 then char_of (n + 32) else c)"

definition lower :: "string \<Rightarrow> string" where
  "lower s = map lower_char s"

text \<open>\<open>sep.join(xs)\<close>.\<close>

fun join :: "string \<Rightarrow> string list \<Rightarrow> string" where
  "join sep [] = []"
| "join sep [x] = x"
| "join sep (x # y # ys) = x @ sep @ join sep (y # ys)"

text \<open>\<open>s.rstrip()\<close>: trailing white space removed.\<close>

definition is_space :: "char \<Rightarrow> bool" where
  "is_space c = (c = CHR '' '' \<or> c = CHR 0x09 \<or> c = CHR 0x0A \<or> c = CHR 0x0D
                 \<or> c = CHR 0x0B \<or> c = CHR 0x0C)"

definition rstrip :: "string \<Rightarrow> string" where
  "rstrip s = rev (dropWhile is_space (rev s))"

text \<open>\<open>str(n)\<close> for a non-negative integer.\<close>

definition digit_char :: "nat \<Rightarrow> char" where
  "digit_char d = char_of (48 + d)"

fun str_nat :: "nat \<Rightarrow> string" where
  "str_nat n = (if n < 10 then [digit_char n] else str_nat (n div 10) @ [digit_char (n mod 10)])"

declare str_nat.simps [simp del]

section \<open>flow.py: the nodes of the flow graph\<close>

text \<open>
  A node object is identified with its \<open>id\<close>: the counter hands every object a fresh
  one. The four classes are the constructors; \<open>next_nodes\<close> is the list \<open>next\<close>,
  and a reference to a node is its id.
\<close>

datatype flow_node =
    StartNode (next_nodes: "nat list")
  | EndNode (next_nodes: "nat list")
  | OperationNode (code: string) (next_nodes: "nat list")
  | ConditionNode (cond_code: string) (true_branch: "nat option")
      (false_branch: "nat option") (next_nodes: "nat list")

text \<open>\<open>counter\<close> is the class attribute \<open>FlowNode._counter\<close>; \<open>nodes\<close> holds the objects
  created so far.\<close>

record flow_state =
  counter :: nat
  nodes :: "nat \<rightharpoonup> flow_node"

definition new_node :: "flow_node \<Rightarrow> flow_state \<Rightarrow> nat \<times> flow_state" where
  "new_node n s =
     (counter s, s\<lparr>counter := Suc (counter s), nodes := (nodes s)(counter s \<mapsto> n)\<rparr>)"

fun add_next :: "nat \<Rightarrow> flow_node \<Rightarrow> flow_node" where
  "add_next b (StartNode nx) = StartNode (nx @ [b])"
| "add_next b (EndNode nx) = EndNode (nx @ [b])"
| "add_next b (OperationNode c nx) = OperationNode c (nx @ [b])"
| "add_next b (ConditionNode c t f nx) = ConditionNode c t f (nx @ [b])"

definition connect :: "nat \<Rightarrow> nat \<Rightarrow> flow_state \<Rightarrow> flow_state" where
  "connect a b s =
     (case nodes s a of
        None \<Rightarrow> s
      | Some n \<Rightarrow> s\<lparr>nodes := (nodes s)(a \<mapsto> add_next b n)\<rparr>)"

fun with_true_branch :: "nat \<Rightarrow> flow_node \<Rightarrow> flow_node" where
  "with_true_branch b (ConditionNode c t f nx) = ConditionNode c (Some b) f nx"
| "with_true_branch b n = n"

fun with_false_branch :: "nat \<Rightarrow> flow_node \<Rightarrow> flow_node" where
  "with_false_branch b (ConditionNode c t f nx) = ConditionNode c t (Some b) nx"
| "with_false_branch b n = n"

definition set_true_branch :: "nat \<Rightarrow> nat \<Rightarrow> flow_state \<Rightarrow> flow_state" where
  "set_true_branch a b s =
     (case nodes s a of
        None \<Rightarrow> s
      | Some n \<Rightarrow> s\<lparr>nodes := (nodes s)(a \<mapsto> with_true_branch b n)\<rparr>)"

definition set_false_branch :: "nat \<Rightarrow> nat \<Rightarrow> flow_state \<Rightarrow> flow_state" where
  "set_false_branch a b s =
     (case nodes s a of
        None \<Rightarrow> s
      | Some n \<Rightarrow> s\<lparr>nodes := (nodes s)(a \<mapsto> with_false_branch b n)\<rparr>)"

section \<open>parser_flow.py: the tokenizer\<close>

datatype tok_type =
    T_ID | T_INT | T_FLOAT
  | T_PLUS | T_MINUS | T_TIMES | T_DIVIDE
  | T_ASSIGN
  | T_EQ | T_NE | T_LT | T_LE | T_GT | T_GE
  | T_LPAREN | T_RPAREN
  | T_SEMI | T_COLON | T_COMMA | T_DOT
  | T_BEGIN | T_END | T_IF | T_THEN | T_ELSE | T_WHILE | T_DO | T_FOR | T_TO | T_DOWNTO
  | T_REPEAT | T_UNTIL | T_WRITELN | T_WRITE | T_READLN | T_READ | T_VAR | T_INTEGER
  | T_REAL | T_BOOLEAN | T_AND | T_OR | T_NOT | T_DIV | T_MOD

definition reserved :: "(string \<times> tok_type) list" where
  "reserved =
     [(''begin'', T_BEGIN), (''end'', T_END), (''if'', T_IF), (''then'', T_THEN),
      (''else'', T_ELSE), (''while'', T_WHILE), (''do'', T_DO), (''for'', T_FOR),
      (''to'', T_TO), (''downto'', T_DOWNTO), (''repeat'', T_REPEAT), (''until'', T_UNTIL),
      (''writeln'', T_WRITELN), (''write'', T_WRITE), (''readln'', T_READLN),
      (''read'', T_READ), (''var'', T_VAR), (''integer'', T_INTEGER), (''real'', T_REAL),
      (''boolean'', T_BOOLEAN), (''and'', T_AND), (''or'', T_OR), (''not'', T_NOT),
      (''div'', T_DIV), (''mod'', T_MOD)]"

text \<open>
  A token is its type and its value. Every use the actions and \<open>p_error\<close> make of a
  value goes through its text (\<open>str\<close>, an f-string, \<open>lower\<close>, a comparison with a
  string), so the value is held as that text: for \<open>INT\<close> the decimal text of the
  number read, for \<open>FLOAT\<close> the text \<open>str\<close> gives for the float.
\<close>

datatype token = Token (tok_type: tok_type) (tok_value: string)

text \<open>How the token stream ends: the input is used up, or the tokenizer meets a
  character no rule matches (with the line counter at that moment).\<close>

datatype lex_end = LexEOF | LexIllegal char nat

definition is_digit :: "char \<Rightarrow> bool" where
  "is_digit c = (let n = (of_char c :: nat) in 48 \<le> n \<and> n \<le> 57)"

definition is_id_start :: "char \<Rightarrow> bool" where
  "is_id_start c =
     (let n = (of_char c :: nat) in (65 \<le> n \<and> n \<le> 90) \<or> (97 \<le> n \<and> n \<le> 122) \<or> n = 95)"

definition is_id_char :: "char \<Rightarrow> bool" where
  "is_id_char c = (is_id_start c \<or> is_digit c)"

definition t_ignore :: string where
  "t_ignore = [CHR '' '', CHR 0x09, CHR 0x0D]"

text \<open>\<open>int(s)\<close> for a string of decimal digits.\<close>

definition int_of_digits :: "string \<Rightarrow> nat" where
  "int_of_digits ds = foldl (\<lambda>a c. 10 * a + (of_char c - 48)) 0 ds"

text \<open>The operator rules. The tokenizer tries the rules given as strings by decreasing
  length of their pattern, so the two-character operators come before their prefixes.\<close>

definition two_char_ops :: "(string \<times> tok_type) list" where
  "two_char_ops = [('':='', T_ASSIGN), (''<>'', T_NE), (''<='', T_LE), (''>='', T_GE)]"

definition one_char_ops :: "(char \<times> tok_type) list" where
  "one_char_ops =
     [(CHR ''+'', T_PLUS), (CHR ''*'', T_TIMES), (CHR ''('', T_LPAREN), (CHR '')'', T_RPAREN),
      (CHR ''.'', T_DOT), (CHR ''-'', T_MINUS), (CHR ''/'', T_DIVIDE), (CHR ''='', T_EQ),
      (CHR ''<'', T_LT), (CHR ''>'', T_GT), (CHR '';'', T_SEMI), (CHR '':'', T_COLON),
      (CHR '','', T_COMMA)]"

definition t_ID :: "string \<Rightarrow> token" where
  "t_ID v = Token (case map_of reserved (lower v) of Some t \<Rightarrow> t | None \<Rightarrow> T_ID) v"

definition t_INT :: "string \<Rightarrow> token" where
  "t_INT v = Token T_INT (str_nat (int_of_digits v))"

definition t_FLOAT :: "(string \<Rightarrow> string) \<Rightarrow> string \<Rightarrow> token" where
  "t_FLOAT float_str v = Token T_FLOAT (float_str v)"

definition push_token :: "token \<Rightarrow> token list \<times> lex_end \<Rightarrow> token list \<times> lex_end" where
  "push_token t r = (t # fst r, snd r)"

text \<open>
  The tokens of the input, with the line counter \<open>ln\<close> as it stands when the input is
  handed over (it is never reset). \<open>float_str v\<close> stands for \<open>str(float(v))\<close>. The rules
  apply in the tokenizer's order: ignored characters, then the rules defined as
  functions in the order of the file (\<open>FLOAT\<close>, \<open>INT\<close>, \<open>ID\<close>, newline, comment), then
  the operators.
\<close>

function tokenize :: "(string \<Rightarrow> string) \<Rightarrow> nat \<Rightarrow> string \<Rightarrow> token list \<times> lex_end" where
  "tokenize float_str ln [] = ([], LexEOF)"
| "tokenize float_str ln (c # cs) =
     (if c \<in> set t_ignore then tokenize float_str ln cs
      else if is_digit c then
        (let ds = c # takeWhile is_digit cs;
             r = dropWhile is_digit cs
         in if (case r of d # e # _ \<Rightarrow> d = CHR ''.'' \<and> is_digit e | _ \<Rightarrow> False) then
              push_token (t_FLOAT float_str (ds @ ''.'' @ takeWhile is_digit (tl r)))
                (tokenize float_str ln (dropWhile is_digit (tl r)))
            else push_token (t_INT ds) (tokenize float_str ln r))
      else if is_id_start c then
        push_token (t_ID (c # takeWhile is_id_char cs))
          (tokenize float_str ln (dropWhile is_id_char cs))
      else if c = CHR 0x0A then tokenize float_str (ln + 1) cs
      else if c = CHR ''{'' \<and> CHR ''}'' \<in> set cs then
        tokenize float_str ln (tl (dropWhile (\<lambda>x. x \<noteq> CHR ''}'') cs))
      else if cs \<noteq> [] \<and> map_of two_char_ops [c, hd cs] \<noteq> None then
        push_token (Token (the (map_of two_char_ops [c, hd cs])) [c, hd cs])
          (tokenize float_str ln (tl cs))
      else if map_of one_char_ops c \<noteq> None then
        push_token (Token (the (map_of one_char_ops c)) [c]) (tokenize float_str ln cs)
      else ([], LexIllegal c ln))"
  by pat_completeness auto
termination
proof -
  have A: "length (dropWhile P xs) \<le> length xs" for P and xs :: string
    by (rule length_dropWhile_le)
  have B: "length (dropWhile P (tl (dropWhile Q xs))) \<le> length xs" for P Q and xs :: string
    using A [of P "tl (dropWhile Q xs)"] A [of Q xs] by simp
  have C: "length (dropWhile P xs) - Suc 0 \<le> length xs" for P and xs :: string
    using A [of P xs] by simp
  show ?thesis
    by (relation "measure (\<lambda>(f, ln, cs). length cs)") (auto simp: less_Suc_eq_le A B C)
qed


section \<open>parser_flow.py: parse trees\<close>

text \<open>
  One constructor for each production of the grammar that carries a value; the unit
  productions of \<open>stmt\<close> are folded into \<open>stmt\<close>. Strings are token values as the
  tokenizer leaves them (a keyword or an identifier in the case the source text has).
\<close>

datatype expr =
    Binop expr string expr
  | Unary string expr
  | Group expr
  | IntLit string
  | RealLit string
  | Var string

datatype expr_list = ExprOne expr | ExprMore expr_list expr

datatype id_list = IdOne string | IdMore id_list string

datatype stmt =
    Assign string expr
  | If expr stmt "stmt option"
  | While expr stmt
  | For string expr string expr stmt
  | Repeat stmt_list expr
  | IoWrite string expr_list
  | IoRead string id_list
  | Block stmt_list
  | Empty
and stmt_list = StmtOne stmt | StmtMore stmt_list stmt

datatype var_decl = VarDecl id_list string

datatype var_decls = VarOne var_decl | VarMore var_decls var_decl

datatype program = Program "var_decls option" stmt_list

section \<open>parser_flow.py: the semantic actions\<close>

record flow_segment =
  seg_first :: nat
  seg_last :: nat

definition FlowSegment :: "nat \<Rightarrow> nat \<Rightarrow> flow_segment" where
  "FlowSegment a b = \<lparr>seg_first = a, seg_last = b\<rparr>"

definition binop_to_c :: "string \<Rightarrow> string" where
  "binop_to_c op =
     (case map_of [(''and'', ''&&''), (''or'', ''||''), (''div'', ''/''), (''mod'', ''%''),
                   (''='', ''==''), (''<>'', ''!='')] (lower op) of
        Some c \<Rightarrow> c
      | None \<Rightarrow> op)"

definition make_bin_expr :: "string \<Rightarrow> string \<Rightarrow> string \<Rightarrow> string" where
  "make_bin_expr a op b = ''('' @ a @ '' '' @ binop_to_c op @ '' '' @ b @ '')''"

text \<open>The value of an \<open>expr\<close>: its text in C. A numeric literal is held as the text
  \<open>str\<close> gives for its value, so \<open>str(p[1])\<close> returns what the tree holds.\<close>

fun p_expr :: "expr \<Rightarrow> string" where
  "p_expr (Binop a op b) = make_bin_expr (p_expr a) op (p_expr b)"
| "p_expr (Unary p1 e) =
     (if p1 = ''-'' then ''(-('' @ p_expr e @ ''))'' else ''!('' @ p_expr e @ '')'')"
| "p_expr (Group e) = ''('' @ p_expr e @ '')''"
| "p_expr (IntLit n) = n"
| "p_expr (RealLit r) = r"
| "p_expr (Var v) = v"

fun p_expr_list :: "expr_list \<Rightarrow> string list" where
  "p_expr_list (ExprOne e) = [p_expr e]"
| "p_expr_list (ExprMore es e) = p_expr_list es @ [p_expr e]"

fun p_id_expr_list :: "id_list \<Rightarrow> string list" where
  "p_id_expr_list (IdOne v) = [v]"
| "p_id_expr_list (IdMore vs v) = p_id_expr_list vs @ [v]"

text \<open>The statement text \<open>p_io_stmt\<close> computes from the keyword \<open>p[1]\<close> and the list
  \<open>p[3]\<close>.\<close>

definition io_code :: "string \<Rightarrow> string list \<Rightarrow> string" where
  "io_code p1 p3 =
     (let f = lower p1 in
      if f = ''writeln'' \<or> f = ''write'' then
        (let fmt = rstrip (concat (replicate (length p3) ''%d ''));
             args = join '', '' p3
         in ''printf('' @ [CHR 0x22] @ fmt @ [CHR 0x5C] @ ''n'' @ [CHR 0x22] @ '', '' @ args @ '');'')
      else join '' '' (map (\<lambda>v. ''scanf('' @ [CHR 0x22] @ ''%d'' @ [CHR 0x22] @ '', &'' @ v @ '');'') p3))"

definition p_assign_stmt :: "string \<Rightarrow> string \<Rightarrow> flow_state \<Rightarrow> flow_segment \<times> flow_state" where
  "p_assign_stmt p1 p3 s =
     (let (node, s) = new_node (OperationNode (p1 @ '' = '' @ p3 @ '';'') []) s
      in (FlowSegment node node, s))"

definition p_io_stmt :: "string \<Rightarrow> string list \<Rightarrow> flow_state \<Rightarrow> flow_segment \<times> flow_state" where
  "p_io_stmt p1 p3 s =
     (let (node, s) = new_node (OperationNode (io_code p1 p3) []) s
      in (FlowSegment node node, s))"

definition p_empty_stmt :: "flow_state \<Rightarrow> flow_segment \<times> flow_state" where
  "p_empty_stmt s =
     (let (n, s) = new_node (OperationNode ''/* empty */'' []) s
      in (FlowSegment n n, s))"

definition p_if_stmt ::
  "string \<Rightarrow> flow_segment \<Rightarrow> flow_segment option \<Rightarrow> flow_state \<Rightarrow> flow_segment \<times> flow_state" where
  "p_if_stmt cc then_seg p5 s =
     (let (cond_node, s) = new_node (ConditionNode cc None None []) s;
          s = set_true_branch cond_node (seg_first then_seg) s
      in case p5 of
           Some else_seg \<Rightarrow>
             (let s = set_false_branch cond_node (seg_first else_seg) s;
                  (jn, s) = new_node (OperationNode ''/* join */'' []) s;
                  s = connect (seg_last then_seg) jn s;
                  s = connect (seg_last else_seg) jn s
              in (FlowSegment cond_node jn, s))
         | None \<Rightarrow>
             (let (jn, s) = new_node (OperationNode ''/* join */'' []) s;
                  s = set_false_branch cond_node jn s;
                  s = connect (seg_last then_seg) jn s
              in (FlowSegment cond_node jn, s)))"

definition p_while_stmt :: "string \<Rightarrow> flow_segment \<Rightarrow> flow_state \<Rightarrow> flow_segment \<times> flow_state" where
  "p_while_stmt p2 body_seg s =
     (let (cond, s) = new_node (ConditionNode p2 None None []) s;
          s = set_true_branch cond (seg_first body_seg) s;
          s = connect (seg_last body_seg) cond s;
          (after, s) = new_node (OperationNode ''/* after while */'' []) s;
          s = set_false_branch cond after s
      in (FlowSegment cond after, s))"

definition p_for_stmt ::
  "string \<Rightarrow> string \<Rightarrow> string \<Rightarrow> string \<Rightarrow> flow_segment \<Rightarrow> flow_state
     \<Rightarrow> flow_segment \<times> flow_state" where
  "p_for_stmt var start p5 end' body_seg s =
     (let downto = (lower p5 = ''downto'');
          (init, s) = new_node (OperationNode (var @ '' = '' @ start @ '';'') []) s;
          cc = (if downto then var @ '' >= '' @ end' else var @ '' <= '' @ end');
          (cond, s) = new_node (ConditionNode cc None None []) s;
          step_code = (if downto then var @ ''--;'' else var @ ''++;'');
          (step, s) = new_node (OperationNode step_code []) s;
          s = connect init cond s;
          s = set_true_branch cond (seg_first body_seg) s;
          s = connect (seg_last body_seg) step s;
          s = connect step cond s;
          (after, s) = new_node (OperationNode ''/* after for */'' []) s;
          s = set_false_branch cond after s
      in (FlowSegment init after, s))"

definition p_repeat_stmt :: "flow_segment \<Rightarrow> string \<Rightarrow> flow_state \<Rightarrow> flow_segment \<times> flow_state" where
  "p_repeat_stmt body_seg p4 s =
     (let (cond, s) = new_node (ConditionNode p4 None None []) s;
          s = connect (seg_last body_seg) cond s;
          (after, s) = new_node (OperationNode ''/* after repeat */'' []) s;
          s = set_true_branch cond after s;
          s = set_false_branch cond (seg_first body_seg) s
      in (FlowSegment (seg_first body_seg) after, s))"

text \<open>
  The parser reduces bottom-up and left to right, so the actions of a tree run in
  post-order: the nodes of the parts exist before the action of the whole runs.
\<close>

fun p_stmt :: "stmt \<Rightarrow> flow_state \<Rightarrow> flow_segment \<times> flow_state"
  and p_stmt_list :: "stmt_list \<Rightarrow> flow_state \<Rightarrow> flow_segment \<times> flow_state" where
  "p_stmt (Assign v e) s = p_assign_stmt v (p_expr e) s"
| "p_stmt (If c t None) s =
     (let (then_seg, s) = p_stmt t s in p_if_stmt (p_expr c) then_seg None s)"
| "p_stmt (If c t (Some e)) s =
     (let (then_seg, s) = p_stmt t s;
          (else_seg, s) = p_stmt e s
      in p_if_stmt (p_expr c) then_seg (Some else_seg) s)"
| "p_stmt (While c b) s =
     (let (body_seg, s) = p_stmt b s in p_while_stmt (p_expr c) body_seg s)"
| "p_stmt (For v lo p5 hi b) s =
     (let (body_seg, s) = p_stmt b s in p_for_stmt v (p_expr lo) p5 (p_expr hi) body_seg s)"
| "p_stmt (Repeat b c) s =
     (let (body_seg, s) = p_stmt_list b s in p_repeat_stmt body_seg (p_expr c) s)"
| "p_stmt (IoWrite p1 es) s = p_io_stmt p1 (p_expr_list es) s"
| "p_stmt (IoRead p1 vs) s = p_io_stmt p1 (p_id_expr_list vs) s"
| "p_stmt (Block b) s = p_stmt_list b s"
| "p_stmt Empty s = p_empty_stmt s"
| "p_stmt_list (StmtOne st) s = p_stmt st s"
| "p_stmt_list (StmtMore sl st) s =
     (let (seg1, s) = p_stmt_list sl s;
          (seg2, s) = p_stmt st s;
          s = connect (seg_last seg1) (seg_first seg2) s
      in (FlowSegment (seg_first seg1) (seg_last seg2), s))"

fun p_program :: "program \<Rightarrow> flow_state \<Rightarrow> flow_segment \<times> flow_state" where
  "p_program (Program vs sl) s =
     (let (seg, s) = p_stmt_list sl s;
          (start, s) = new_node (StartNode []) s;
          (end', s) = new_node (EndNode []) s;
          s = connect start (seg_first seg) s;
          s = connect (seg_last seg) end' s
      in (FlowSegment start end', s))"

section \<open>parser_flow.py: the parser\<close>

text \<open>
  \<open>raise SyntaxError(msg)\<close> is the only way a translation fails. \<open>Depth\<close> belongs to
  the model alone: the parser functions below count their calls down, and \<open>Depth\<close> is a
  count that was set too low.
\<close>

datatype error = SyntaxError string | Depth

definition p_error :: "token option \<Rightarrow> error" where
  "p_error p =
     (case p of
        Some t \<Rightarrow> SyntaxError (''Syntax error at '' @ [CHR 0x27] @ tok_value t @ [CHR 0x27])
      | None \<Rightarrow> SyntaxError ''Syntax error at EOF'')"

definition t_error :: "char \<Rightarrow> nat \<Rightarrow> error" where
  "t_error c ln =
     SyntaxError (''Illegal character '' @ [CHR 0x27] @ [c] @ [CHR 0x27] @ '' at line '' @ str_nat ln)"

text \<open>
  The parser asks the tokenizer for one token at a time. What it gets when the tokens
  read so far are used up: the end of the input, or the tokenizer's error.
\<close>

definition no_token :: "lex_end \<Rightarrow> error" where
  "no_token e = (case e of LexEOF \<Rightarrow> p_error None | LexIllegal c ln \<Rightarrow> t_error c ln)"

definition unexpected :: "lex_end \<Rightarrow> token list \<Rightarrow> error" where
  "unexpected e ts = (case ts of [] \<Rightarrow> no_token e | t # _ \<Rightarrow> p_error (Some t))"

definition expect :: "tok_type \<Rightarrow> lex_end \<Rightarrow> token list \<Rightarrow> error + token \<times> token list" where
  "expect ty e ts =
     (case ts of
        t # r \<Rightarrow> if tok_type t = ty then Inr (t, r) else Inl (unexpected e ts)
      | [] \<Rightarrow> Inl (unexpected e ts))"

definition next_is :: "tok_type \<Rightarrow> token list \<Rightarrow> bool" where
  "next_is ty ts = (case ts of t # _ \<Rightarrow> tok_type t = ty | [] \<Rightarrow> False)"

definition and_then :: "error + 'a \<Rightarrow> ('a \<Rightarrow> error + 'b) \<Rightarrow> error + 'b" where
  "and_then r f = (case r of Inl e \<Rightarrow> Inl e | Inr x \<Rightarrow> f x)"

text \<open>The table \<open>precedence\<close>: the level of each binary operator, lowest first; all of
  them associate to the left. Level 6 is \<open>NOT\<close>, which the unary minus shares.\<close>

definition precedence :: "tok_type \<Rightarrow> nat option" where
  "precedence ty =
     (if ty = T_OR then Some 1
      else if ty = T_AND then Some 2
      else if ty \<in> {T_EQ, T_NE, T_LT, T_LE, T_GT, T_GE} then Some 3
      else if ty \<in> {T_PLUS, T_MINUS} then Some 4
      else if ty \<in> {T_TIMES, T_DIVIDE, T_DIV, T_MOD} then Some 5
      else None)"

text \<open>
  The expressions. \<open>parse_expr n e m ts\<close> reads the longest expression at the head of
  \<open>ts\<close> whose binary operators outside parentheses have level \<open>m\<close> or more, which is
  what the generated parser does with the table above: it reduces when the operator
  ahead has a level not above the one of the rule it has read, and shifts otherwise.
\<close>

fun parse_expr :: "nat \<Rightarrow> lex_end \<Rightarrow> nat \<Rightarrow> token list \<Rightarrow> error + expr \<times> token list"
  and parse_binop :: "nat \<Rightarrow> lex_end \<Rightarrow> nat \<Rightarrow> expr \<Rightarrow> token list \<Rightarrow> error + expr \<times> token list"
  and parse_unary :: "nat \<Rightarrow> lex_end \<Rightarrow> token list \<Rightarrow> error + expr \<times> token list" where
  "parse_expr 0 e m ts = Inl Depth"
| "parse_expr (Suc n) e m ts =
     and_then (parse_unary n e ts) (\<lambda>(a, r). parse_binop n e m a r)"
| "parse_binop 0 e m a ts = Inl Depth"
| "parse_binop (Suc n) e m a [] = Inr (a, [])"
| "parse_binop (Suc n) e m a (t # r) =
     (case precedence (tok_type t) of
        None \<Rightarrow> Inr (a, t # r)
      | Some l \<Rightarrow>
          if m \<le> l then
            and_then (parse_expr n e (Suc l) r)
              (\<lambda>(b, r). parse_binop n e m (Binop a (tok_value t) b) r)
          else Inr (a, t # r))"
| "parse_unary 0 e ts = Inl Depth"
| "parse_unary (Suc n) e [] = Inl (unexpected e [])"
| "parse_unary (Suc n) e (t # r) =
     (if tok_type t = T_MINUS \<or> tok_type t = T_NOT then
        and_then (parse_unary n e r) (\<lambda>(a, r). Inr (Unary (tok_value t) a, r))
      else if tok_type t = T_LPAREN then
        and_then (parse_expr n e 1 r)
          (\<lambda>(a, r). and_then (expect T_RPAREN e r) (\<lambda>(_, r). Inr (Group a, r)))
      else if tok_type t = T_INT then Inr (IntLit (tok_value t), r)
      else if tok_type t = T_FLOAT then Inr (RealLit (tok_value t), r)
      else if tok_type t = T_ID then Inr (Var (tok_value t), r)
      else Inl (unexpected e (t # r)))"

fun parse_expr_list :: "nat \<Rightarrow> lex_end \<Rightarrow> expr_list \<Rightarrow> token list \<Rightarrow> error + expr_list \<times> token list" where
  "parse_expr_list 0 e es ts = Inl Depth"
| "parse_expr_list (Suc n) e es ts =
     (if next_is T_COMMA ts then
        and_then (parse_expr n e 1 (tl ts)) (\<lambda>(x, r). parse_expr_list n e (ExprMore es x) r)
      else Inr (es, ts))"

fun parse_id_list :: "lex_end \<Rightarrow> id_list \<Rightarrow> token list \<Rightarrow> error + id_list \<times> token list" where
  "parse_id_list e vs (c # t # r) =
     (if tok_type c = T_COMMA then
        (if tok_type t = T_ID then parse_id_list e (IdMore vs (tok_value t)) r
         else Inl (unexpected e (t # r)))
      else Inr (vs, c # t # r))"
| "parse_id_list e vs [c] = (if tok_type c = T_COMMA then Inl (unexpected e []) else Inr (vs, [c]))"
| "parse_id_list e vs [] = Inr (vs, [])"

text \<open>
  The statements. A token that starts no statement gives the empty statement, and an
  \<open>else\<close> goes to the nearest \<open>if\<close>: the generated parser shifts where it could also
  reduce.
\<close>

fun parse_stmt :: "nat \<Rightarrow> lex_end \<Rightarrow> token list \<Rightarrow> error + stmt \<times> token list"
  and parse_stmt_list :: "nat \<Rightarrow> lex_end \<Rightarrow> stmt_list \<Rightarrow> token list \<Rightarrow> error + stmt_list \<times> token list" where
  "parse_stmt 0 e ts = Inl Depth"
| "parse_stmt (Suc n) e [] = Inr (Empty, [])"
| "parse_stmt (Suc n) e (t # r) =
     (if tok_type t = T_ID then
        and_then (expect T_ASSIGN e r)
          (\<lambda>(_, r). and_then (parse_expr n e 1 r) (\<lambda>(x, r). Inr (Assign (tok_value t) x, r)))
      else if tok_type t = T_IF then
        and_then (parse_expr n e 1 r)
          (\<lambda>(c, r). and_then (expect T_THEN e r)
          (\<lambda>(_, r). and_then (parse_stmt n e r)
          (\<lambda>(th, r).
             if next_is T_ELSE r then
               and_then (parse_stmt n e (tl r)) (\<lambda>(el, r). Inr (If c th (Some el), r))
             else Inr (If c th None, r))))
      else if tok_type t = T_WHILE then
        and_then (parse_expr n e 1 r)
          (\<lambda>(c, r). and_then (expect T_DO e r)
          (\<lambda>(_, r). and_then (parse_stmt n e r) (\<lambda>(b, r). Inr (While c b, r))))
      else if tok_type t = T_FOR then
        and_then (expect T_ID e r)
          (\<lambda>(v, r). and_then (expect T_ASSIGN e r)
          (\<lambda>(_, r). and_then (parse_expr n e 1 r)
          (\<lambda>(lo, r).
             if next_is T_TO r \<or> next_is T_DOWNTO r then
               and_then (parse_expr n e 1 (tl r))
                 (\<lambda>(hi, r'). and_then (expect T_DO e r')
                 (\<lambda>(_, r'). and_then (parse_stmt n e r')
                 (\<lambda>(b, r'). Inr (For (tok_value v) lo (tok_value (hd r)) hi b, r'))))
             else Inl (unexpected e r))))
      else if tok_type t = T_REPEAT then
        and_then (parse_stmt n e r)
          (\<lambda>(s, r). and_then (parse_stmt_list n e (StmtOne s) r)
          (\<lambda>(b, r). and_then (expect T_UNTIL e r)
          (\<lambda>(_, r). and_then (parse_expr n e 1 r) (\<lambda>(c, r). Inr (Repeat b c, r)))))
      else if tok_type t = T_WRITELN \<or> tok_type t = T_WRITE then
        and_then (expect T_LPAREN e r)
          (\<lambda>(_, r). and_then (parse_expr n e 1 r)
          (\<lambda>(x, r). and_then (parse_expr_list n e (ExprOne x) r)
          (\<lambda>(es, r). and_then (expect T_RPAREN e r)
          (\<lambda>(_, r). Inr (IoWrite (tok_value t) es, r)))))
      else if tok_type t = T_READLN \<or> tok_type t = T_READ then
        and_then (expect T_LPAREN e r)
          (\<lambda>(_, r). and_then (expect T_ID e r)
          (\<lambda>(v, r). and_then (parse_id_list e (IdOne (tok_value v)) r)
          (\<lambda>(vs, r). and_then (expect T_RPAREN e r)
          (\<lambda>(_, r). Inr (IoRead (tok_value t) vs, r)))))
      else if tok_type t = T_BEGIN then
        and_then (parse_stmt n e r)
          (\<lambda>(s, r). and_then (parse_stmt_list n e (StmtOne s) r)
          (\<lambda>(b, r). and_then (expect T_END e r) (\<lambda>(_, r). Inr (Block b, r))))
      else Inr (Empty, t # r))"
| "parse_stmt_list 0 e sl ts = Inl Depth"
| "parse_stmt_list (Suc n) e sl ts =
     (if next_is T_SEMI ts then
        and_then (parse_stmt n e (tl ts)) (\<lambda>(s, r). parse_stmt_list n e (StmtMore sl s) r)
      else Inr (sl, ts))"

text \<open>The declarations: parsed, and their value is \<open>None\<close>.\<close>

definition parse_var_decl :: "lex_end \<Rightarrow> token list \<Rightarrow> error + var_decl \<times> token list" where
  "parse_var_decl e ts =
     and_then (expect T_ID e ts)
       (\<lambda>(v, r). and_then (parse_id_list e (IdOne (tok_value v)) r)
       (\<lambda>(vs, r). and_then (expect T_COLON e r)
       (\<lambda>(_, r).
          if next_is T_INTEGER r \<or> next_is T_REAL r \<or> next_is T_BOOLEAN r then
            and_then (expect T_SEMI e (tl r)) (\<lambda>(_, r'). Inr (VarDecl vs (tok_value (hd r)), r'))
          else Inl (unexpected e r))))"

fun parse_var_decls :: "nat \<Rightarrow> lex_end \<Rightarrow> var_decls \<Rightarrow> token list \<Rightarrow> error + var_decls \<times> token list" where
  "parse_var_decls 0 e ds ts = Inl Depth"
| "parse_var_decls (Suc n) e ds ts =
     (if next_is T_ID ts then
        and_then (parse_var_decl e ts) (\<lambda>(d, r). parse_var_decls n e (VarMore ds d) r)
      else Inr (ds, ts))"

definition parse_opt_var_section ::
  "nat \<Rightarrow> lex_end \<Rightarrow> token list \<Rightarrow> error + var_decls option \<times> token list" where
  "parse_opt_var_section n e ts =
     (if next_is T_VAR ts then
        and_then (parse_var_decl e (tl ts))
          (\<lambda>(d, r). and_then (parse_var_decls n e (VarOne d) r) (\<lambda>(ds, r). Inr (Some ds, r)))
      else Inr (None, ts))"

definition parse_program :: "nat \<Rightarrow> lex_end \<Rightarrow> token list \<Rightarrow> error + program" where
  "parse_program n e ts =
     and_then (parse_opt_var_section n e ts)
       (\<lambda>(vs, r). and_then (expect T_BEGIN e r)
       (\<lambda>(_, r). and_then (parse_stmt n e r)
       (\<lambda>(s, r). and_then (parse_stmt_list n e (StmtOne s) r)
       (\<lambda>(sl, r). and_then (expect T_END e r)
       (\<lambda>(_, r). and_then (expect T_DOT e r)
       (\<lambda>(_, r). if r = [] \<and> e = LexEOF then Inr (Program vs sl) else Inl (unexpected e r)))))))"

section \<open>flow_cgen.py: the regenerator\<close>

record gen_state =
  lines :: "string list"
  indent_level :: nat
  visited :: "nat set"

definition FlowCGenerator :: gen_state where
  "FlowCGenerator = \<lparr>lines = [], indent_level = 0, visited = {}\<rparr>"

definition indent :: "gen_state \<Rightarrow> string" where
  "indent g = concat (replicate (indent_level g) ''    '')"

definition emit :: "string \<Rightarrow> gen_state \<Rightarrow> gen_state" where
  "emit line g = g\<lparr>lines := lines g @ [indent g @ line]\<rparr>"

text \<open>
  \<open>_walk\<close> recurses once for each node on the path it follows; the first argument bounds
  the depth of that recursion, and \<open>None\<close> is a walk that needs more. \<open>indent_level\<close>
  is only ever decreased after it was increased, so a natural number holds it.
\<close>

fun walk :: "nat \<Rightarrow> (nat \<rightharpoonup> flow_node) \<Rightarrow> nat \<Rightarrow> gen_state \<Rightarrow> gen_state option"
  and walk_all :: "nat \<Rightarrow> (nat \<rightharpoonup> flow_node) \<Rightarrow> nat list \<Rightarrow> gen_state \<Rightarrow> gen_state option" where
  "walk 0 h node g = None"
| "walk (Suc d) h node g =
     (if node \<in> visited g then Some g
      else
        let g = g\<lparr>visited := insert node (visited g)\<rparr> in
        case h node of
          None \<Rightarrow> None
        | Some (OperationNode c nx) \<Rightarrow> walk_all d h nx (emit c g)
        | Some (ConditionNode c t f nx) \<Rightarrow>
            (let g = emit (''if ('' @ c @ '') {'') g;
                 g = g\<lparr>indent_level := indent_level g + 1\<rparr>
             in case (case t of None \<Rightarrow> Some g | Some tb \<Rightarrow> walk d h tb g) of
                  None \<Rightarrow> None
                | Some g \<Rightarrow>
                    (let g = g\<lparr>indent_level := indent_level g - 1\<rparr>
                     in case (case f of
                                None \<Rightarrow> Some g
                              | Some fb \<Rightarrow>
                                  (let g = emit ''} else {'' g;
                                       g = g\<lparr>indent_level := indent_level g + 1\<rparr>
                                   in case walk d h fb g of
                                        None \<Rightarrow> None
                                      | Some g \<Rightarrow> Some (g\<lparr>indent_level := indent_level g - 1\<rparr>))) of
                          None \<Rightarrow> None
                        | Some g \<Rightarrow> walk_all d h nx (emit ''}'' g)))
        | Some n \<Rightarrow> walk_all d h (next_nodes n) g)"
| "walk_all d h [] g = Some g"
| "walk_all d h (nxt # rest) g =
     (case walk d h nxt g of None \<Rightarrow> None | Some g \<Rightarrow> walk_all d h rest g)"

definition generate :: "nat \<Rightarrow> (nat \<rightharpoonup> flow_node) \<Rightarrow> nat \<Rightarrow> string option" where
  "generate d h start =
     (let g = emit ''#include <stdio.h>'' FlowCGenerator;
          g = emit [] g;
          g = emit ''int main() {'' g;
          g = g\<lparr>indent_level := indent_level g + 1\<rparr>
      in case walk d h start g of
           None \<Rightarrow> None
         | Some g \<Rightarrow>
             (let g = emit ''return 0;'' g;
                  g = g\<lparr>indent_level := indent_level g - 1\<rparr>;
                  g = emit ''}'' g
              in Some (join [CHR 0x0A] (lines g))))"

section \<open>The pipeline\<close>

text \<open>\<open>parser.parse(source, lexer=lexer)\<close>: the tree of the whole input, or the error
  raised. The count handed to the parser functions is large enough for every input.\<close>

definition parse :: "(string \<Rightarrow> string) \<Rightarrow> nat \<Rightarrow> string \<Rightarrow> error + program" where
  "parse float_str ln source =
     (let (ts, e) = tokenize float_str ln source in parse_program (2 * length ts + 10) e ts)"

text \<open>The actions run while the parser reduces; here they run on the finished tree.\<close>

definition parse_pascal_to_flow ::
  "(string \<Rightarrow> string) \<Rightarrow> nat \<Rightarrow> string \<Rightarrow> flow_state \<Rightarrow> error + flow_segment \<times> flow_state" where
  "parse_pascal_to_flow float_str ln source s =
     (case parse float_str ln source of
        Inl err \<Rightarrow> Inl err
      | Inr tree \<Rightarrow> Inr (p_program tree s))"

text \<open>Build, then regenerate from the first node of the segment, as the caller in
  \<open>gui.py\<close> does; \<open>d\<close> bounds the depth of \<open>_walk\<close>.\<close>

definition translate ::
  "(string \<Rightarrow> string) \<Rightarrow> nat \<Rightarrow> nat \<Rightarrow> string \<Rightarrow> flow_state \<Rightarrow> error + string" where
  "translate float_str ln d source s =
     (case parse_pascal_to_flow float_str ln source s of
        Inl err \<Rightarrow> Inl err
      | Inr (seg, s') \<Rightarrow>
          (case generate d (nodes s') (seg_first seg) of
             None \<Rightarrow> Inl Depth
           | Some text \<Rightarrow> Inr text))"

section \<open>gui.py: marker nodes\<close>

text \<open>\<open>m in s\<close> on strings: \<open>m\<close> occurs in \<open>s\<close> as a contiguous block.\<close>

fun starts_with :: "string \<Rightarrow> string \<Rightarrow> bool" where
  "starts_with [] s = True"
| "starts_with (x # xs) [] = False"
| "starts_with (x # xs) (y # ys) = (x = y \<and> starts_with xs ys)"

fun occurs_in :: "string \<Rightarrow> string \<Rightarrow> bool" where
  "occurs_in m [] = (m = [])"
| "occurs_in m (c # cs) = (starts_with m (c # cs) \<or> occurs_in m cs)"

definition SERVICE_MARKERS :: "string list" where
  "SERVICE_MARKERS = [''/* empty */'', ''/* join */'', ''/* after while */'', ''/* after for */'']"

fun is_real :: "flow_node \<Rightarrow> bool" where
  "is_real (OperationNode c nx) = (\<not> list_ex (\<lambda>m. occurs_in m c) SERVICE_MARKERS)"
| "is_real n = True"

section \<open>Notions the properties are stated with\<close>

text \<open>The state of a process that has created no node yet.\<close>

definition fresh_process :: flow_state where
  "fresh_process = \<lparr>counter = 0, nodes = Map.empty\<rparr>"

text \<open>The expressions of an argument list, in the order of the source text.\<close>

fun expr_list_items :: "expr_list \<Rightarrow> expr list" where
  "expr_list_items (ExprOne e) = [e]"
| "expr_list_items (ExprMore es e) = expr_list_items es @ [e]"

text \<open>The objects created so far, by id, and the graph a source text gives.\<close>

definition node_table :: "flow_state \<Rightarrow> flow_node option list" where
  "node_table s = map (nodes s) [0..<counter s]"

definition built_graph ::
  "(string \<Rightarrow> string) \<Rightarrow> nat \<Rightarrow> string \<Rightarrow> flow_state \<Rightarrow> error + flow_segment \<times> flow_node option list" where
  "built_graph float_str ln source s =
     (case parse_pascal_to_flow float_str ln source s of
        Inl err \<Rightarrow> Inl err
      | Inr (seg, s') \<Rightarrow> Inr (seg, node_table s'))"

text \<open>The number of nodes the actions of a statement create.\<close>

fun node_count :: "stmt \<Rightarrow> nat" and node_count_list :: "stmt_list \<Rightarrow> nat" where
  "node_count (Assign v e) = 1"
| "node_count (If c t None) = node_count t + 2"
| "node_count (If c t (Some e)) = node_count t + node_count e + 2"
| "node_count (While c b) = node_count b + 2"
| "node_count (For v lo p5 hi b) = node_count b + 4"
| "node_count (Repeat b c) = node_count_list b + 2"
| "node_count (IoWrite p1 es) = 1"
| "node_count (IoRead p1 vs) = 1"
| "node_count (Block b) = node_count_list b"
| "node_count Empty = 1"
| "node_count_list (StmtOne st) = node_count st"
| "node_count_list (StmtMore sl st) = node_count_list sl + node_count st"

text \<open>What a segment promises about the state it was built in: its ends are nodes made
  since the counter stood at \<open>c\<close>, and its last node is an Operation without successor.\<close>

definition segment_ok :: "nat \<Rightarrow> flow_segment \<Rightarrow> flow_state \<Rightarrow> bool" where
  "segment_ok c seg s \<longleftrightarrow>
     c \<le> seg_first seg \<and> seg_first seg < counter s \<and> c \<le> seg_last seg \<and> seg_last seg < counter s
     \<and> (\<exists>code. nodes s (seg_last seg) = Some (OperationNode code []))"

text \<open>What building a statement does to the state: the counter advances by the number
  of its nodes, the nodes that were there stay as they are, and the segment is sound.\<close>

definition built :: "nat \<Rightarrow> flow_state \<Rightarrow> flow_segment \<times> flow_state \<Rightarrow> bool" where
  "built n s r \<longleftrightarrow>
     counter (snd r) = counter s + n
     \<and> segment_ok (counter s) (fst r) (snd r)
     \<and> (\<forall>i. i < counter s \<or> counter s + n \<le> i \<longrightarrow> nodes (snd r) i = nodes s i)"

definition ind :: "nat \<Rightarrow> string" where
  "ind k = concat (replicate k ''    '')"

fun render :: "stmt \<Rightarrow> (nat \<Rightarrow> string list) \<Rightarrow> nat \<Rightarrow> string list"
  and render_list :: "stmt_list \<Rightarrow> (nat \<Rightarrow> string list) \<Rightarrow> nat \<Rightarrow> string list" where
  "render (Assign v e) K k = (ind k @ v @ '' = '' @ p_expr e @ '';'') # K k"
| "render (If c t None) K k =
     (ind k @ ''if ('' @ p_expr c @ '') {'')
       # render t (\<lambda>j. (ind j @ ''/* join */'') # K j) (Suc k)
       @ [ind k @ ''} else {'', ind k @ ''}'']"
| "render (If c t (Some e)) K k =
     (ind k @ ''if ('' @ p_expr c @ '') {'')
       # render t (\<lambda>j. (ind j @ ''/* join */'') # K j) (Suc k)
       @ [ind k @ ''} else {''] @ render e (\<lambda>j. []) (Suc k) @ [ind k @ ''}'']"
| "render (While c b) K k =
     (ind k @ ''if ('' @ p_expr c @ '') {'')
       # render b (\<lambda>j. []) (Suc k)
       @ [ind k @ ''} else {'', ind (Suc k) @ ''/* after while */''] @ K (Suc k) @ [ind k @ ''}'']"
| "render (For v lo p5 hi b) K k =
     (ind k @ v @ '' = '' @ p_expr lo @ '';'')
       # (ind k @ ''if (''
            @ (if lower p5 = ''downto'' then v @ '' >= '' @ p_expr hi else v @ '' <= '' @ p_expr hi)
            @ '') {'')
       # render b (\<lambda>j. [ind j @ (if lower p5 = ''downto'' then v @ ''--;'' else v @ ''++;'')]) (Suc k)
       @ [ind k @ ''} else {'', ind (Suc k) @ ''/* after for */''] @ K (Suc k) @ [ind k @ ''}'']"
| "render (Repeat b c) K k =
     render_list b
       (\<lambda>j. (ind j @ ''if ('' @ p_expr c @ '') {'') # (ind (Suc j) @ ''/* after repeat */'')
              # K (Suc j) @ [ind j @ ''} else {'', ind j @ ''}''])
       k"
| "render (IoWrite p1 es) K k = (ind k @ io_code p1 (p_expr_list es)) # K k"
| "render (IoRead p1 vs) K k = (ind k @ io_code p1 (p_id_expr_list vs)) # K k"
| "render (Block b) K k = render_list b K k"
| "render Empty K k = (ind k @ ''/* empty */'') # K k"
| "render_list (StmtOne st) K k = render st K k"
| "render_list (StmtMore sl st) K k = render_list sl (render st K) k"

definition continues ::
  "(nat \<rightharpoonup> flow_node) \<Rightarrow> nat list \<Rightarrow> nat \<Rightarrow> nat set \<Rightarrow> nat set \<Rightarrow> (nat \<Rightarrow> string list) \<Rightarrow> bool" where
  "continues H nx fK D VK K \<longleftrightarrow>
     (\<forall>d g. fK \<le> d \<longrightarrow> D \<subseteq> visited g \<longrightarrow> visited g \<inter> VK = {} \<longrightarrow>
        walk_all d H nx g =
          Some (g\<lparr>lines := lines g @ K (indent_level g), visited := visited g \<union> VK\<rparr>))"

definition installed ::
  "(nat \<rightharpoonup> flow_node) \<Rightarrow> nat \<Rightarrow> flow_segment \<times> flow_state \<Rightarrow> nat list \<Rightarrow> bool" where
  "installed H c r nx \<longleftrightarrow>
     (\<forall>i. c \<le> i \<and> i < counter (snd r) \<and> i \<noteq> seg_last (fst r) \<longrightarrow> H i = nodes (snd r) i)
     \<and> (\<exists>code. nodes (snd r) (seg_last (fst r)) = Some (OperationNode code [])
               \<and> H (seg_last (fst r)) = Some (OperationNode code nx))"

definition walks ::
  "(nat \<rightharpoonup> flow_node) \<Rightarrow> nat \<Rightarrow> flow_segment \<times> flow_state \<Rightarrow> nat
     \<Rightarrow> ((nat \<Rightarrow> string list) \<Rightarrow> nat \<Rightarrow> string list) \<Rightarrow> bool" where
  "walks H c r n R \<longleftrightarrow>
     (\<forall>nx fK D VK K g d.
        installed H c r nx \<longrightarrow> continues H nx fK D VK K \<longrightarrow>
        VK \<inter> {c..<counter (snd r)} = {} \<longrightarrow>
        visited g \<inter> {c..<counter (snd r)} = {} \<longrightarrow> visited g \<inter> VK = {} \<longrightarrow>
        D \<subseteq> insert (seg_first (fst r)) (visited g) \<longrightarrow> n + fK \<le> d \<longrightarrow>
        walk d H (seg_first (fst r)) g =
          Some (g\<lparr>lines := lines g @ R K (indent_level g),
                  visited := visited g \<union> {c..<counter (snd r)} \<union> VK\<rparr>))"

fun program_lines :: "program \<Rightarrow> string list" where
  "program_lines (Program vs sl) =
     [''#include <stdio.h>'', [], ''int main() {''] @ render_list sl (\<lambda>j. []) 1
       @ [''    return 0;'', ''}'']"

fun program_nodes :: "program \<Rightarrow> nat" where
  "program_nodes (Program vs sl) = node_count_list sl + 2"

text \<open>The four shapes of a line the walk emits.\<close>

definition op_line :: "nat \<Rightarrow> string \<Rightarrow> string" where
  "op_line k x = ind k @ x"

definition if_line :: "nat \<Rightarrow> string \<Rightarrow> string" where
  "if_line k c = ind k @ ''if ('' @ c @ '') {''"

definition else_line :: "nat \<Rightarrow> string" where
  "else_line k = ind k @ ''} else {''"

definition close_line :: "nat \<Rightarrow> string" where
  "close_line k = ind k @ ''}''"

text \<open>The text of the condition a \<open>for\<close> loop tests and of its step.\<close>

definition for_cond :: "string \<Rightarrow> string \<Rightarrow> string \<Rightarrow> string" where
  "for_cond v p5 hi = (if lower p5 = ''downto'' then v @ '' >= '' @ hi else v @ '' <= '' @ hi)"

definition for_step :: "string \<Rightarrow> string \<Rightarrow> string" where
  "for_step v p5 = (if lower p5 = ''downto'' then v @ ''--;'' else v @ ''++;'')"

text \<open>How many Condition nodes and how many Operation nodes a statement gives.\<close>

fun cond_count :: "stmt \<Rightarrow> nat" and cond_count_list :: "stmt_list \<Rightarrow> nat" where
  "cond_count (Assign v e) = 0"
| "cond_count (If c t None) = Suc (cond_count t)"
| "cond_count (If c t (Some e)) = Suc (cond_count t + cond_count e)"
| "cond_count (While c b) = Suc (cond_count b)"
| "cond_count (For v lo p5 hi b) = Suc (cond_count b)"
| "cond_count (Repeat b c) = Suc (cond_count_list b)"
| "cond_count (IoWrite p1 es) = 0"
| "cond_count (IoRead p1 vs) = 0"
| "cond_count (Block b) = cond_count_list b"
| "cond_count Empty = 0"
| "cond_count_list (StmtOne st) = cond_count st"
| "cond_count_list (StmtMore sl st) = cond_count_list sl + cond_count st"

fun op_count :: "stmt \<Rightarrow> nat" and op_count_list :: "stmt_list \<Rightarrow> nat" where
  "op_count (Assign v e) = 1"
| "op_count (If c t None) = Suc (op_count t)"
| "op_count (If c t (Some e)) = Suc (op_count t + op_count e)"
| "op_count (While c b) = Suc (op_count b)"
| "op_count (For v lo p5 hi b) = op_count b + 3"
| "op_count (Repeat b c) = Suc (op_count_list b)"
| "op_count (IoWrite p1 es) = 1"
| "op_count (IoRead p1 vs) = 1"
| "op_count (Block b) = op_count_list b"
| "op_count Empty = 1"
| "op_count_list (StmtOne st) = op_count st"
| "op_count_list (StmtMore sl st) = op_count_list sl + op_count st"

text \<open>What every statement text of an Operation node has: it ends with \<open>;\<close> or, a
  marker, with \<open>/\<close>, and holds one of the characters \<open>= * ( + -\<close>.\<close>

definition op_text :: "string \<Rightarrow> bool" where
  "op_text x \<longleftrightarrow>
     x \<noteq> [] \<and> (last x = CHR '';'' \<or> last x = CHR ''/'') \<and> (\<exists>c\<in>set x. c \<in> set ''=*(+-'')"

text \<open>Reading a line of the output: \<open>s.lstrip()\<close>, \<open>s.endswith(suf)\<close>, and the lines
  that open the two blocks of a conditional.\<close>

definition lstrip :: "string \<Rightarrow> string" where
  "lstrip s = dropWhile is_space s"

definition ends_with :: "string \<Rightarrow> string \<Rightarrow> bool" where
  "ends_with suf s = starts_with (rev suf) (rev s)"

definition is_if_line :: "string \<Rightarrow> bool" where
  "is_if_line l \<longleftrightarrow> starts_with ''if ('' (lstrip l) \<and> ends_with '') {'' l"

definition is_else_line :: "string \<Rightarrow> bool" where
  "is_else_line l \<longleftrightarrow> lstrip l = ''} else {''"

definition opens_block :: "string \<Rightarrow> bool" where
  "opens_block l \<longleftrightarrow> ends_with ''{'' l"

text \<open>A line of the body of \<open>main\<close>: indented, and with one of the characters the
  statements and the braces bring.\<close>

definition inner_line :: "string \<Rightarrow> bool" where
  "inner_line l \<longleftrightarrow> starts_with ''    '' l \<and> list_ex (\<lambda>c. c \<in> set ''=*(+-}'') l"

text \<open>The text a translation gives; none when it fails.\<close>

definition output_text :: "error + string \<Rightarrow> string" where
  "output_text r = (case r of Inl err \<Rightarrow> [] | Inr text \<Rightarrow> text)"

text \<open>\<open>s.split()\<close> and \<open>' '.join(s.split())\<close>: the words of a text, and the text with
  every run of white space made one blank.\<close>

function split :: "string \<Rightarrow> string list" where
  "split [] = []"
| "split (c # cs) =
     (if is_space c then split cs
      else (c # takeWhile (\<lambda>x. \<not> is_space x) cs) # split (dropWhile (\<lambda>x. \<not> is_space x) cs))"
  by pat_completeness auto
termination
  by (relation "measure length") (auto simp: less_Suc_eq_le length_dropWhile_le)

definition one_line :: "string \<Rightarrow> string" where
  "one_line s = join '' '' (split s)"

chapter \<open>Properties\<close>

section \<open>The print statements\<close>

lemma concat_replicate_snoc: "concat (replicate (Suc n) x) = concat (replicate n x) @ x"
  by (induction n) auto

lemma join_replicate_fmt:
  "join '' '' (replicate (Suc n) ''%d'') = concat (replicate n ''%d '') @ ''%d''"
  by (induction n) auto

lemma rstrip_fmt: "rstrip (concat (replicate n ''%d '')) = join '' '' (replicate n ''%d'')"
proof (cases n)
  case 0
  then show ?thesis by (simp add: rstrip_def)
next
  case (Suc k)
  have "rstrip (concat (replicate k ''%d '') @ ''%d '') = concat (replicate k ''%d '') @ ''%d''"
    by (simp add: rstrip_def is_space_def)
  then show ?thesis
    unfolding Suc concat_replicate_snoc join_replicate_fmt .
qed

lemma p_expr_list_items: "p_expr_list es = map p_expr (expr_list_items es)"
  by (induction es) auto

lemma io_code_print:
  assumes "lower p1 = ''writeln'' \<or> lower p1 = ''write''"
  shows "io_code p1 args =
           ''printf('' @ [CHR 0x22] @ join '' '' (replicate (length args) ''%d'') @ [CHR 0x5C]
             @ ''n'' @ [CHR 0x22] @ '', '' @ join '', '' args @ '');''"
  using assms by (auto simp: io_code_def Let_def rstrip_fmt)

text \<open>
  C5, as the code has it: \<open>writeln(args)\<close> and \<open>write(args)\<close> give the same single
  Operation node. Its statement is one \<open>printf\<close> whose format has one \<open>%d\<close> for each
  argument, separated by single spaces and followed by the newline escape, and whose
  arguments are the texts of the expressions in source order, separated by commas. The
  keyword is matched whatever its case.
\<close>
theorem write_and_writeln_emit_the_same_print:
  assumes "lower w = ''writeln''" and "lower w' = ''write''"
  shows "p_stmt (IoWrite w es) s =
           (FlowSegment (counter s) (counter s),
            s\<lparr>counter := Suc (counter s),
              nodes := (nodes s)(counter s \<mapsto> OperationNode (io_code w (p_expr_list es)) [])\<rparr>)
         \<and> p_stmt (IoWrite w' es) s = p_stmt (IoWrite w es) s
         \<and> io_code w' (p_expr_list es) = io_code w (p_expr_list es)
         \<and> io_code w (p_expr_list es) =
             ''printf('' @ [CHR 0x22]
               @ join '' '' (replicate (length (expr_list_items es)) ''%d'')
               @ [CHR 0x5C] @ ''n'' @ [CHR 0x22] @ '', ''
               @ join '', '' (map p_expr (expr_list_items es)) @ '');''"
  using assms
  by (simp add: io_code_print p_io_stmt_def new_node_def p_expr_list_items)

theorem write_and_writeln_emit_the_same_print_witness:
  "lower ''WriteLn'' = ''writeln'' \<and> lower ''write'' = ''write''
   \<and> p_stmt (IoWrite ''write'' (ExprMore (ExprOne (Var ''a'')) (Var ''b''))) fresh_process
     = p_stmt (IoWrite ''WriteLn'' (ExprMore (ExprOne (Var ''a'')) (Var ''b''))) fresh_process
   \<and> io_code ''WriteLn'' (p_expr_list (ExprMore (ExprOne (Var ''a'')) (Var ''b'')))
     = ''printf('' @ [CHR 0x22] @ ''%d %d'' @ [CHR 0x5C] @ ''n'' @ [CHR 0x22] @ '', a, b);''"
proof -
  have a: "lower ''WriteLn'' = ''writeln''" by code_simp
  have b: "lower ''write'' = ''write''" by code_simp
  show ?thesis
    using write_and_writeln_emit_the_same_print [OF a b, of "ExprMore (ExprOne (Var ''a'')) (Var ''b'')" fresh_process] a b
    by (simp add: numeral_2_eq_2)
qed

text \<open>C5 as stated fails: the print emitted for \<open>write(a, b)\<close> ends its format with
  the newline escape, as the one for \<open>writeln\<close> does.\<close>

theorem write_keeps_the_newline_counterexample:
  "translate id 1 50 ''begin write(a, b) end.'' fresh_process =
     Inr (''#include <stdio.h>\<newline>\<newline>int main() {\<newline>    printf('' @ [CHR 0x22] @ ''%d %d'' @ [CHR 0x5C] @ ''n''
          @ [CHR 0x22] @ '', a, b);\<newline>    return 0;\<newline>}'')"
  by code_simp

section \<open>The depth of the walk\<close>

lemma walk_all_mono_step:
  assumes "\<And>n g g'. walk d h n g = Some g' \<Longrightarrow> walk d' h n g = Some g'"
  shows "walk_all d h ns g = Some g' \<Longrightarrow> walk_all d' h ns g = Some g'"
  using assms by (induction ns arbitrary: g) (auto split: option.splits)

lemma walk_mono_step:
  assumes w: "\<And>n g g'. walk d h n g = Some g' \<Longrightarrow> walk d' h n g = Some g'"
    and a: "\<And>ns g g'. walk_all d h ns g = Some g' \<Longrightarrow> walk_all d' h ns g = Some g'"
  shows "walk (Suc d) h n g = Some g' \<Longrightarrow> walk (Suc d') h n g = Some g'"
  by (auto simp: Let_def w a split: if_splits option.splits flow_node.splits)

lemma walk_mono_add: "walk d h n g = Some g' \<Longrightarrow> walk (d + k) h n g = Some g'"
proof (induction d arbitrary: n g g')
  case 0
  then show ?case by simp
next
  case (Suc d)
  have "walk (Suc (d + k)) h n g = Some g'"
    using Suc.prems
    by (rule walk_mono_step [rotated 2]) (auto intro: Suc.IH walk_all_mono_step)
  then show ?case by simp
qed

lemma walk_mono: "walk d h n g = Some g' \<Longrightarrow> d \<le> d' \<Longrightarrow> walk d' h n g = Some g'"
  using walk_mono_add [of d h n g g' "d' - d"] by simp

lemma generate_mono: "generate d h n = Some t \<Longrightarrow> d \<le> d' \<Longrightarrow> generate d' h n = Some t"
  unfolding generate_def Let_def
  by (auto split: option.splits dest: walk_mono)

lemma translate_mono:
  "translate f ln d src s = Inr t \<Longrightarrow> d \<le> d' \<Longrightarrow> translate f ln d' src s = Inr t"
  unfolding translate_def
  by (auto split: sum.splits option.splits prod.splits dest: generate_mono)

section \<open>What the builder does to the state\<close>

lemma leaf_effect:
  "new_node n s = (counter s, s\<lparr>counter := Suc (counter s), nodes := (nodes s)(counter s \<mapsto> n)\<rparr>)"
  by (simp add: new_node_def)

lemma connect_nodes:
  "nodes (connect a b s) i =
     (if i = a then map_option (add_next b) (nodes s a) else nodes s i)"
  by (auto simp: connect_def split: option.splits)

lemma connect_counter [simp]: "counter (connect a b s) = counter s"
  by (auto simp: connect_def split: option.splits)

lemma set_true_branch_nodes:
  "nodes (set_true_branch a b s) i =
     (if i = a then map_option (with_true_branch b) (nodes s a) else nodes s i)"
  by (auto simp: set_true_branch_def split: option.splits)

lemma set_true_branch_counter [simp]: "counter (set_true_branch a b s) = counter s"
  by (auto simp: set_true_branch_def split: option.splits)

lemma set_false_branch_nodes:
  "nodes (set_false_branch a b s) i =
     (if i = a then map_option (with_false_branch b) (nodes s a) else nodes s i)"
  by (auto simp: set_false_branch_def split: option.splits)

lemma set_false_branch_counter [simp]: "counter (set_false_branch a b s) = counter s"
  by (auto simp: set_false_branch_def split: option.splits)

lemmas heap_simps = connect_nodes set_true_branch_nodes set_false_branch_nodes new_node_def
  FlowSegment_def

lemma p_if_stmt_else_effect:
  assumes "nodes s (seg_last t) = Some (OperationNode ct [])"
    and "nodes s (seg_last e) = Some (OperationNode ce [])"
    and "seg_last t < counter s" and "seg_last e < counter s" and "seg_last t \<noteq> seg_last e"
  shows "fst (p_if_stmt cc t (Some e) s) = FlowSegment (counter s) (Suc (counter s))"
    and "counter (snd (p_if_stmt cc t (Some e) s)) = counter s + 2"
    and "nodes (snd (p_if_stmt cc t (Some e) s)) i =
           (if i = counter s then Some (ConditionNode cc (Some (seg_first t)) (Some (seg_first e)) [])
            else if i = Suc (counter s) then Some (OperationNode ''/* join */'' [])
            else if i = seg_last t then Some (OperationNode ct [Suc (counter s)])
            else if i = seg_last e then Some (OperationNode ce [Suc (counter s)])
            else nodes s i)"
  using assms by (auto simp: p_if_stmt_def heap_simps Let_def)

lemma p_if_stmt_effect:
  assumes "nodes s (seg_last t) = Some (OperationNode ct [])" and "seg_last t < counter s"
  shows "fst (p_if_stmt cc t None s) = FlowSegment (counter s) (Suc (counter s))"
    and "counter (snd (p_if_stmt cc t None s)) = counter s + 2"
    and "nodes (snd (p_if_stmt cc t None s)) i =
           (if i = counter s then Some (ConditionNode cc (Some (seg_first t)) (Some (Suc (counter s))) [])
            else if i = Suc (counter s) then Some (OperationNode ''/* join */'' [])
            else if i = seg_last t then Some (OperationNode ct [Suc (counter s)])
            else nodes s i)"
  using assms by (auto simp: p_if_stmt_def heap_simps Let_def)

lemma p_while_stmt_effect:
  assumes "nodes s (seg_last b) = Some (OperationNode cb [])" and "seg_last b < counter s"
  shows "fst (p_while_stmt cc b s) = FlowSegment (counter s) (Suc (counter s))"
    and "counter (snd (p_while_stmt cc b s)) = counter s + 2"
    and "nodes (snd (p_while_stmt cc b s)) i =
           (if i = counter s then Some (ConditionNode cc (Some (seg_first b)) (Some (Suc (counter s))) [])
            else if i = Suc (counter s) then Some (OperationNode ''/* after while */'' [])
            else if i = seg_last b then Some (OperationNode cb [counter s])
            else nodes s i)"
  using assms by (auto simp: p_while_stmt_def heap_simps Let_def)

lemma p_for_stmt_effect:
  assumes "nodes s (seg_last b) = Some (OperationNode cb [])" and "seg_last b < counter s"
  shows "fst (p_for_stmt v lo p5 hi b s) = FlowSegment (counter s) (counter s + 3)"
    and "counter (snd (p_for_stmt v lo p5 hi b s)) = counter s + 4"
    and "nodes (snd (p_for_stmt v lo p5 hi b s)) i =
           (if i = counter s then Some (OperationNode (v @ '' = '' @ lo @ '';'') [Suc (counter s)])
            else if i = Suc (counter s) then
              Some (ConditionNode
                     (if lower p5 = ''downto'' then v @ '' >= '' @ hi else v @ '' <= '' @ hi)
                     (Some (seg_first b)) (Some (counter s + 3)) [])
            else if i = counter s + 2 then
              Some (OperationNode (if lower p5 = ''downto'' then v @ ''--;'' else v @ ''++;'')
                     [Suc (counter s)])
            else if i = counter s + 3 then Some (OperationNode ''/* after for */'' [])
            else if i = seg_last b then Some (OperationNode cb [counter s + 2])
            else nodes s i)"
  using assms by (auto simp: p_for_stmt_def heap_simps Let_def)

lemma p_repeat_stmt_effect:
  assumes "nodes s (seg_last b) = Some (OperationNode cb [])" and "seg_last b < counter s"
  shows "fst (p_repeat_stmt b cc s) = FlowSegment (seg_first b) (Suc (counter s))"
    and "counter (snd (p_repeat_stmt b cc s)) = counter s + 2"
    and "nodes (snd (p_repeat_stmt b cc s)) i =
           (if i = counter s then Some (ConditionNode cc (Some (Suc (counter s))) (Some (seg_first b)) [])
            else if i = Suc (counter s) then Some (OperationNode ''/* after repeat */'' [])
            else if i = seg_last b then Some (OperationNode cb [counter s])
            else nodes s i)"
  using assms by (auto simp: p_repeat_stmt_def heap_simps Let_def)

lemma built_leaf:
  "built 1 s (FlowSegment (counter s) (counter s),
              s\<lparr>counter := Suc (counter s), nodes := (nodes s)(counter s \<mapsto> OperationNode c [])\<rparr>)"
  by (simp add: built_def segment_ok_def FlowSegment_def)

lemma built_if_else:
  assumes t: "built nt s rt" and e: "built ne (snd rt) re"
  shows "built (nt + ne + 2) s (p_if_stmt cc (fst rt) (Some (fst re)) (snd re))"
proof -
  obtain ct where ct: "nodes (snd rt) (seg_last (fst rt)) = Some (OperationNode ct [])"
    using t by (auto simp: built_def segment_ok_def)
  obtain ce where ce: "nodes (snd re) (seg_last (fst re)) = Some (OperationNode ce [])"
    using e by (auto simp: built_def segment_ok_def)
  have lt: "seg_last (fst rt) < counter (snd rt)" "counter s \<le> seg_last (fst rt)"
    using t by (auto simp: built_def segment_ok_def)
  have le: "seg_last (fst re) < counter (snd re)" "counter (snd rt) \<le> seg_last (fst re)"
    using e by (auto simp: built_def segment_ok_def)
  have ct': "nodes (snd re) (seg_last (fst rt)) = Some (OperationNode ct [])"
    using e lt ct by (auto simp: built_def)
  have c: "counter (snd re) = counter s + nt + ne" "counter (snd rt) = counter s + nt"
    using t e by (auto simp: built_def)
  note eff = p_if_stmt_else_effect [OF ct' ce, of cc]
  have d: "seg_last (fst rt) < counter (snd re)" "seg_last (fst rt) \<noteq> seg_last (fst re)"
    using lt le c by auto
  note eff = eff [OF d(1) le(1) d(2)]
  have f: "counter s \<le> seg_first (fst rt)"
    using t by (auto simp: built_def segment_ok_def)
  show ?thesis
    unfolding built_def
    using t e lt le c f
    by (auto simp: eff built_def segment_ok_def FlowSegment_def)
qed

lemma built_if:
  assumes t: "built nt s rt"
  shows "built (nt + 2) s (p_if_stmt cc (fst rt) None (snd rt))"
proof -
  obtain ct where ct: "nodes (snd rt) (seg_last (fst rt)) = Some (OperationNode ct [])"
    using t by (auto simp: built_def segment_ok_def)
  have lt: "seg_last (fst rt) < counter (snd rt)" "counter s \<le> seg_last (fst rt)"
    using t by (auto simp: built_def segment_ok_def)
  note eff = p_if_stmt_effect [OF ct lt(1), of cc]
  show ?thesis
    unfolding built_def
    using t lt
    by (auto simp: eff built_def segment_ok_def FlowSegment_def)
qed

lemma built_while:
  assumes t: "built nt s rt"
  shows "built (nt + 2) s (p_while_stmt cc (fst rt) (snd rt))"
proof -
  obtain ct where ct: "nodes (snd rt) (seg_last (fst rt)) = Some (OperationNode ct [])"
    using t by (auto simp: built_def segment_ok_def)
  have lt: "seg_last (fst rt) < counter (snd rt)" "counter s \<le> seg_last (fst rt)"
    using t by (auto simp: built_def segment_ok_def)
  note eff = p_while_stmt_effect [OF ct lt(1), of cc]
  show ?thesis
    unfolding built_def
    using t lt
    by (auto simp: eff built_def segment_ok_def FlowSegment_def)
qed

lemma built_for:
  assumes t: "built nt s rt"
  shows "built (nt + 4) s (p_for_stmt v lo p5 hi (fst rt) (snd rt))"
proof -
  obtain ct where ct: "nodes (snd rt) (seg_last (fst rt)) = Some (OperationNode ct [])"
    using t by (auto simp: built_def segment_ok_def)
  have lt: "seg_last (fst rt) < counter (snd rt)" "counter s \<le> seg_last (fst rt)"
    using t by (auto simp: built_def segment_ok_def)
  note eff = p_for_stmt_effect [OF ct lt(1), of v lo p5 hi]
  show ?thesis
    unfolding built_def
    using t lt
    by (auto simp: eff built_def segment_ok_def FlowSegment_def)
qed

lemma built_repeat:
  assumes t: "built nt s rt"
  shows "built (nt + 2) s (p_repeat_stmt (fst rt) cc (snd rt))"
proof -
  obtain ct where ct: "nodes (snd rt) (seg_last (fst rt)) = Some (OperationNode ct [])"
    using t by (auto simp: built_def segment_ok_def)
  have lt: "seg_last (fst rt) < counter (snd rt)" "counter s \<le> seg_last (fst rt)"
    using t by (auto simp: built_def segment_ok_def)
  note eff = p_repeat_stmt_effect [OF ct lt(1), of cc]
  show ?thesis
    unfolding built_def
    using t lt
    by (auto simp: eff built_def segment_ok_def FlowSegment_def)
qed

lemma built_seq:
  assumes a: "built na s ra" and b: "built nb (snd ra) rb"
  shows "built (na + nb) s
           (FlowSegment (seg_first (fst ra)) (seg_last (fst rb)),
            connect (seg_last (fst ra)) (seg_first (fst rb)) (snd rb))"
proof -
  obtain ca where ca: "nodes (snd ra) (seg_last (fst ra)) = Some (OperationNode ca [])"
    using a by (auto simp: built_def segment_ok_def)
  have la: "seg_last (fst ra) < counter (snd ra)" "counter s \<le> seg_last (fst ra)"
    using a by (auto simp: built_def segment_ok_def)
  have ca': "nodes (snd rb) (seg_last (fst ra)) = Some (OperationNode ca [])"
    using b la ca by (auto simp: built_def)
  show ?thesis
    unfolding built_def
    using a b la ca'
    by (auto simp: connect_nodes built_def segment_ok_def FlowSegment_def)
qed

lemma p_stmt_built:
  "built (node_count st) s (p_stmt st s)"
  "built (node_count_list sl) s (p_stmt_list sl s)"
proof (induction st and sl arbitrary: s and s rule: node_count_node_count_list.induct)
  case (1 v e)
  show ?case using built_leaf by (simp add: p_assign_stmt_def new_node_def)
next
  case (2 c t)
  show ?case using built_if [OF 2] by (simp add: case_prod_beta)
next
  case (3 c t e)
  show ?case using built_if_else [OF 3(1) 3(2)] by (simp add: case_prod_beta)
next
  case (4 c b)
  show ?case using built_while [OF 4] by (simp add: case_prod_beta)
next
  case (5 v lo p5 hi b)
  show ?case using built_for [OF 5] by (simp add: case_prod_beta)
next
  case (6 b c)
  show ?case using built_repeat [OF 6] by (simp add: case_prod_beta)
next
  case (7 p1 es)
  show ?case using built_leaf by (simp add: p_io_stmt_def new_node_def)
next
  case (8 p1 vs)
  show ?case using built_leaf by (simp add: p_io_stmt_def new_node_def)
next
  case (9 b)
  then show ?case by simp
next
  case 10
  show ?case using built_leaf by (simp add: p_empty_stmt_def new_node_def)
next
  case (11 st)
  then show ?case by simp
next
  case (12 sl st)
  show ?case using built_seq [OF 12(1) 12(2)] by (simp add: case_prod_beta Let_def)
qed

lemma dom_connect [simp]: "dom (nodes (connect a b s)) = dom (nodes s)"
  by (auto simp: connect_def split: option.splits)

lemma dom_set_true_branch [simp]: "dom (nodes (set_true_branch a b s)) = dom (nodes s)"
  by (auto simp: set_true_branch_def split: option.splits)

lemma dom_set_false_branch [simp]: "dom (nodes (set_false_branch a b s)) = dom (nodes s)"
  by (auto simp: set_false_branch_def split: option.splits)

lemma p_stmt_dom:
  "dom (nodes (snd (p_stmt st s))) = dom (nodes s) \<union> {counter s ..< counter s + node_count st}"
  "dom (nodes (snd (p_stmt_list sl s))) = dom (nodes s) \<union> {counter s ..< counter s + node_count_list sl}"
proof (induction st and sl arbitrary: s and s rule: node_count_node_count_list.induct)
  case (2 c t)
  have "counter (snd (p_stmt t s)) = counter s + node_count t"
    using p_stmt_built(1) [of t s] by (simp add: built_def)
  then show ?case
    using 2 [of s] by (auto simp: case_prod_beta p_if_stmt_def new_node_def Let_def)
next
  case (3 c t e)
  have "counter (snd (p_stmt t s)) = counter s + node_count t"
    "counter (snd (p_stmt e (snd (p_stmt t s)))) = counter s + node_count t + node_count e"
    using p_stmt_built(1) [of t s] p_stmt_built(1) [of e "snd (p_stmt t s)"]
    by (simp_all add: built_def)
  then show ?case
    using 3(1) [of s] 3(2) [of "snd (p_stmt t s)"]
    by (auto simp: case_prod_beta p_if_stmt_def new_node_def Let_def)
next
  case (4 c b)
  have "counter (snd (p_stmt b s)) = counter s + node_count b"
    using p_stmt_built(1) [of b s] by (simp add: built_def)
  then show ?case
    using 4 [of s] by (auto simp: case_prod_beta p_while_stmt_def new_node_def Let_def)
next
  case (5 v lo p5 hi b)
  have "counter (snd (p_stmt b s)) = counter s + node_count b"
    using p_stmt_built(1) [of b s] by (simp add: built_def)
  then show ?case
    using 5 [of s] by (auto simp: case_prod_beta p_for_stmt_def new_node_def Let_def)
next
  case (6 b c)
  have "counter (snd (p_stmt_list b s)) = counter s + node_count_list b"
    using p_stmt_built(2) [of b s] by (simp add: built_def)
  then show ?case
    using 6 [of s] by (auto simp: case_prod_beta p_repeat_stmt_def new_node_def Let_def)
next
  case (12 sl st)
  have "counter (snd (p_stmt_list sl s)) = counter s + node_count_list sl"
    using p_stmt_built(2) [of sl s] by (simp add: built_def)
  then show ?case
    using 12(1) [of s] 12(2) [of "snd (p_stmt_list sl s)"]
    by (auto simp: case_prod_beta Let_def)
qed (auto simp: p_assign_stmt_def p_io_stmt_def p_empty_stmt_def new_node_def)

section \<open>The walk over a built graph\<close>

lemma indent_ind: "indent g = ind (indent_level g)"
  by (simp add: indent_def ind_def)

lemma depth_Suc: "Suc n \<le> d \<Longrightarrow> \<exists>d1. d = Suc d1 \<and> n \<le> d1"
  by (cases d) auto

text \<open>Every state of the regenerator, written with its three fields.\<close>

lemma gen_state_canon:
  fixes g :: gen_state
  shows "g\<lparr>lines := l\<rparr> = \<lparr>lines = l, indent_level = indent_level g, visited = visited g\<rparr>"
    and "g\<lparr>indent_level := k\<rparr> = \<lparr>lines = lines g, indent_level = k, visited = visited g\<rparr>"
    and "g\<lparr>visited := v\<rparr> = \<lparr>lines = lines g, indent_level = indent_level g, visited = v\<rparr>"
  by simp_all

lemma walk_visited: "n \<in> visited g \<Longrightarrow> walk (Suc d) H n g = Some g"
  by simp

lemma walk_op:
  fixes g :: gen_state
  assumes "n \<notin> visited g" and "H n = Some (OperationNode c nx)"
  shows "walk (Suc d) H n g =
           walk_all d H nx \<lparr>lines = lines g @ [ind (indent_level g) @ c],
                            indent_level = indent_level g, visited = insert n (visited g)\<rparr>"
  using assms by (simp add: Let_def emit_def indent_ind gen_state_canon)

lemma walk_cond:
  fixes g :: gen_state
  assumes "n \<notin> visited g" and "H n = Some (ConditionNode c (Some t) (Some f) [])"
    and "walk d H t \<lparr>lines = lines g @ [ind (indent_level g) @ ''if ('' @ c @ '') {''],
                      indent_level = Suc (indent_level g),
                      visited = insert n (visited g)\<rparr>
           = Some \<lparr>lines = l2, indent_level = Suc (indent_level g), visited = v2\<rparr>"
    and "walk d H f \<lparr>lines = l2 @ [ind (indent_level g) @ ''} else {''],
                      indent_level = Suc (indent_level g), visited = v2\<rparr>
           = Some \<lparr>lines = l3, indent_level = Suc (indent_level g), visited = v3\<rparr>"
  shows "walk (Suc d) H n g =
           Some \<lparr>lines = l3 @ [ind (indent_level g) @ ''}''], indent_level = indent_level g,
                 visited = v3\<rparr>"
  using assms by (simp add: Let_def emit_def indent_ind gen_state_canon)

lemma walk_cond_at:
  fixes g :: gen_state
  assumes "n \<notin> visited g" and "H n = Some (ConditionNode c (Some t) (Some f) [])"
    and "lines g = l" and "indent_level g = k" and "visited g = vs"
    and "walk d H t \<lparr>lines = l @ [ind k @ ''if ('' @ c @ '') {''],
                      indent_level = Suc k, visited = insert n vs\<rparr>
           = Some \<lparr>lines = l2, indent_level = Suc k, visited = v2\<rparr>"
    and "walk d H f \<lparr>lines = l2 @ [ind k @ ''} else {''],
                      indent_level = Suc k, visited = v2\<rparr>
           = Some \<lparr>lines = l3, indent_level = Suc k, visited = v3\<rparr>"
  shows "walk (Suc d) H n g =
           Some \<lparr>lines = l3 @ [ind k @ ''}''], indent_level = k, visited = v3\<rparr>"
  using walk_cond [of n g H c t f d l2 v2 l3 v3] assms by simp

lemma walk_plain:
  fixes g :: gen_state
  assumes "n \<notin> visited g" and "H n = Some (StartNode nx) \<or> H n = Some (EndNode nx)"
  shows "walk (Suc d) H n g =
           walk_all d H nx \<lparr>lines = lines g, indent_level = indent_level g,
                            visited = insert n (visited g)\<rparr>"
  using assms by (auto simp: Let_def gen_state_canon)

lemma continuesD:
  fixes g :: gen_state
  assumes "continues H nx fK D VK K" and "fK \<le> d" and "D \<subseteq> visited g" and "visited g \<inter> VK = {}"
  shows "walk_all d H nx g =
           Some \<lparr>lines = lines g @ K (indent_level g), indent_level = indent_level g,
                 visited = visited g \<union> VK\<rparr>"
  using assms unfolding continues_def by (simp add: gen_state_canon)

lemma continuesI:
  assumes "\<And>d g. fK \<le> d \<Longrightarrow> D \<subseteq> visited g \<Longrightarrow> visited g \<inter> VK = {} \<Longrightarrow>
             walk_all d H nx g =
               Some \<lparr>lines = lines g @ K (indent_level g), indent_level = indent_level g,
                     visited = visited g \<union> VK\<rparr>"
  shows "continues H nx fK D VK K"
  using assms unfolding continues_def by (simp add: gen_state_canon)

lemma cont_visited: "continues H [n] 1 {n} {} (\<lambda>j. [])"
proof (rule continuesI)
  fix d :: nat and g :: gen_state
  assume "1 \<le> d" and "{n} \<subseteq> visited g"
  then obtain d1 where "d = Suc d1" using depth_Suc [of 0 d] by auto
  then show "walk_all d H [n] g =
               Some \<lparr>lines = lines g @ [], indent_level = indent_level g, visited = visited g \<union> {}\<rparr>"
    using \<open>{n} \<subseteq> visited g\<close> by simp
qed

lemma cont_op:
  assumes H: "H n = Some (OperationNode c nx)" and K: "continues H nx fK D VK K" and n: "n \<notin> VK"
  shows "continues H [n] (Suc fK) D (insert n VK) (\<lambda>j. (ind j @ c) # K j)"
proof (rule continuesI)
  fix d :: nat and g :: gen_state
  assume d: "Suc fK \<le> d" and D: "D \<subseteq> visited g" and V: "visited g \<inter> insert n VK = {}"
  obtain d1 where d1: "d = Suc d1" "fK \<le> d1" using depth_Suc [OF d] by auto
  have nv: "n \<notin> visited g" using V by auto
  have "walk_all d1 H nx \<lparr>lines = lines g @ [ind (indent_level g) @ c],
                           indent_level = indent_level g, visited = insert n (visited g)\<rparr> =
          Some \<lparr>lines = (lines g @ [ind (indent_level g) @ c]) @ K (indent_level g),
                indent_level = indent_level g, visited = insert n (visited g) \<union> VK\<rparr>"
    using D V n continuesD [OF K d1(2), of "\<lparr>lines = lines g @ [ind (indent_level g) @ c],
                           indent_level = indent_level g, visited = insert n (visited g)\<rparr>"]
    by auto
  then show "walk_all d H [n] g =
               Some \<lparr>lines = lines g @ (ind (indent_level g) @ c) # K (indent_level g),
                     indent_level = indent_level g, visited = visited g \<union> insert n VK\<rparr>"
    using walk_op [of n g H c nx d1] nv H by (simp add: d1)
qed

lemma walksD:
  fixes g :: gen_state
  assumes "walks H c r n R" and "installed H c r nx" and "continues H nx fK D VK K"
    and "VK \<inter> {c..<counter (snd r)} = {}" and "visited g \<inter> {c..<counter (snd r)} = {}"
    and "visited g \<inter> VK = {}" and "D \<subseteq> insert (seg_first (fst r)) (visited g)"
    and "n + fK \<le> d"
  shows "walk d H (seg_first (fst r)) g =
           Some \<lparr>lines = lines g @ R K (indent_level g), indent_level = indent_level g,
                 visited = visited g \<union> {c..<counter (snd r)} \<union> VK\<rparr>"
  using assms unfolding walks_def by (simp add: gen_state_canon)

lemma walksI:
  assumes "\<And>nx fK D VK K d g.
             installed H c r nx \<Longrightarrow> continues H nx fK D VK K \<Longrightarrow>
             VK \<inter> {c..<counter (snd r)} = {} \<Longrightarrow> visited g \<inter> {c..<counter (snd r)} = {} \<Longrightarrow>
             visited g \<inter> VK = {} \<Longrightarrow> D \<subseteq> insert (seg_first (fst r)) (visited g) \<Longrightarrow>
             n + fK \<le> d \<Longrightarrow>
             walk d H (seg_first (fst r)) g =
               Some \<lparr>lines = lines g @ R K (indent_level g), indent_level = indent_level g,
                     visited = visited g \<union> {c..<counter (snd r)} \<union> VK\<rparr>"
  shows "walks H c r n R"
  using assms unfolding walks_def by (simp add: gen_state_canon)

lemma walks_leaf:
  "walks H (counter s)
     (FlowSegment (counter s) (counter s),
      s\<lparr>counter := Suc (counter s), nodes := (nodes s)(counter s \<mapsto> OperationNode stm [])\<rparr>)
     1 (\<lambda>K k. (ind k @ stm) # K k)"
proof (rule walksI)
  fix nx fK D VK K and d :: nat and g :: gen_state
  let ?c = "counter s"
  let ?r = "(FlowSegment ?c ?c,
             s\<lparr>counter := Suc ?c, nodes := (nodes s)(?c \<mapsto> OperationNode stm [])\<rparr>)"
  assume inst: "installed H ?c ?r nx" and K: "continues H nx fK D VK K"
    and VK: "VK \<inter> {?c..<counter (snd ?r)} = {}"
    and g: "visited g \<inter> {?c..<counter (snd ?r)} = {}"
    and gv: "visited g \<inter> VK = {}"
    and D: "D \<subseteq> insert (seg_first (fst ?r)) (visited g)"
    and d: "1 + fK \<le> d"
  have Hc: "H ?c = Some (OperationNode stm nx)"
    using inst by (auto simp: installed_def FlowSegment_def)
  obtain d1 where d1: "d = Suc d1" "fK \<le> d1" using depth_Suc [of fK d] d by auto
  have nv: "?c \<notin> visited g" using g by auto
  have cv: "?c \<notin> VK" using VK by auto
  have "walk_all d1 H nx \<lparr>lines = lines g @ [ind (indent_level g) @ stm],
                           indent_level = indent_level g, visited = insert ?c (visited g)\<rparr> =
          Some \<lparr>lines = (lines g @ [ind (indent_level g) @ stm]) @ K (indent_level g),
                indent_level = indent_level g, visited = insert ?c (visited g) \<union> VK\<rparr>"
    using D gv cv
      continuesD [OF K d1(2), of "\<lparr>lines = lines g @ [ind (indent_level g) @ stm],
                           indent_level = indent_level g, visited = insert ?c (visited g)\<rparr>"]
    by (auto simp: FlowSegment_def)
  then show "walk d H (seg_first (fst ?r)) g =
               Some \<lparr>lines = lines g @ (ind (indent_level g) @ stm) # K (indent_level g),
                     indent_level = indent_level g,
                     visited = visited g \<union> {?c..<counter (snd ?r)} \<union> VK\<rparr>"
    using walk_op [of "counter s" g H stm nx d1] nv Hc by (simp add: d1 FlowSegment_def)
qed

lemma cont_walks:
  assumes w: "walks H c r n R" and inst: "installed H c r nx" and K: "continues H nx fK D VK K"
    and VK: "VK \<inter> {c..<counter (snd r)} = {}"
  shows "continues H [seg_first (fst r)] (n + fK) D ({c..<counter (snd r)} \<union> VK) (R K)"
proof (rule continuesI)
  fix d :: nat and g :: gen_state
  assume d: "n + fK \<le> d" and D: "D \<subseteq> visited g"
    and V: "visited g \<inter> ({c..<counter (snd r)} \<union> VK) = {}"
  have "walk d H (seg_first (fst r)) g =
          Some \<lparr>lines = lines g @ R K (indent_level g), indent_level = indent_level g,
                visited = visited g \<union> {c..<counter (snd r)} \<union> VK\<rparr>"
    using D V by (intro walksD [OF w inst K VK _ _ _ d]) auto
  then show "walk_all d H [seg_first (fst r)] g =
               Some \<lparr>lines = lines g @ R K (indent_level g), indent_level = indent_level g,
                     visited = visited g \<union> ({c..<counter (snd r)} \<union> VK)\<rparr>"
    by (simp add: Un_assoc)
qed

lemma walks_seq:
  assumes a: "built na s ra" and b: "built nb (snd ra) rb"
    and wa: "walks H (counter s) ra na Ra" and wb: "walks H (counter (snd ra)) rb nb Rb"
  shows "walks H (counter s)
           (FlowSegment (seg_first (fst ra)) (seg_last (fst rb)),
            connect (seg_last (fst ra)) (seg_first (fst rb)) (snd rb))
           (na + nb) (\<lambda>K. Ra (Rb K))"
proof (rule walksI)
  fix nx fK D VK K and d :: nat and g :: gen_state
  let ?c = "counter s"
  let ?r = "(FlowSegment (seg_first (fst ra)) (seg_last (fst rb)),
             connect (seg_last (fst ra)) (seg_first (fst rb)) (snd rb))"
  assume inst: "installed H ?c ?r nx" and K: "continues H nx fK D VK K"
    and VK: "VK \<inter> {?c..<counter (snd ?r)} = {}"
    and g: "visited g \<inter> {?c..<counter (snd ?r)} = {}"
    and gv: "visited g \<inter> VK = {}"
    and D: "D \<subseteq> insert (seg_first (fst ?r)) (visited g)"
    and d: "na + nb + fK \<le> d"
  obtain ca where ca: "nodes (snd ra) (seg_last (fst ra)) = Some (OperationNode ca [])"
    using a by (auto simp: built_def segment_ok_def)
  have la: "seg_last (fst ra) < counter (snd ra)" "?c \<le> seg_last (fst ra)"
    using a by (auto simp: built_def segment_ok_def)
  have lb: "seg_last (fst rb) < counter (snd rb)" "counter (snd ra) \<le> seg_last (fst rb)"
    using b by (auto simp: built_def segment_ok_def)
  have c: "counter (snd ra) = ?c + na" "counter (snd rb) = ?c + na + nb"
    using a b by (auto simp: built_def)
  have fr: "\<And>i. i < counter (snd ra) \<Longrightarrow> nodes (snd rb) i = nodes (snd ra) i"
    using b by (auto simp: built_def)
  have insta: "installed H ?c ra [seg_first (fst rb)]"
    unfolding installed_def
  proof (intro conjI allI impI)
    fix i assume i: "?c \<le> i \<and> i < counter (snd ra) \<and> i \<noteq> seg_last (fst ra)"
    then have "H i = nodes (snd ?r) i"
      using inst lb c by (auto simp: installed_def FlowSegment_def)
    then show "H i = nodes (snd ra) i"
      using i fr by (simp add: connect_nodes)
  next
    have "H (seg_last (fst ra)) = nodes (snd ?r) (seg_last (fst ra))"
      using inst la lb c by (auto simp: installed_def FlowSegment_def)
    then show "\<exists>code. nodes (snd ra) (seg_last (fst ra)) = Some (OperationNode code [])
                 \<and> H (seg_last (fst ra)) = Some (OperationNode code [seg_first (fst rb)])"
      using ca fr [OF la(1)] by (simp add: connect_nodes)
  qed
  have instb: "installed H (counter (snd ra)) rb nx"
    unfolding installed_def
  proof (intro conjI allI impI)
    fix i assume i: "counter (snd ra) \<le> i \<and> i < counter (snd rb) \<and> i \<noteq> seg_last (fst rb)"
    then have "H i = nodes (snd ?r) i"
      using inst c by (auto simp: installed_def FlowSegment_def)
    then show "H i = nodes (snd rb) i"
      using i la by (simp add: connect_nodes)
  next
    show "\<exists>code. nodes (snd rb) (seg_last (fst rb)) = Some (OperationNode code [])
            \<and> H (seg_last (fst rb)) = Some (OperationNode code nx)"
      using inst la lb by (auto simp: installed_def FlowSegment_def connect_nodes)
  qed
  have VKb: "VK \<inter> {counter (snd ra)..<counter (snd rb)} = {}"
    using VK c by auto
  note contb = cont_walks [OF wb instb K VKb]
  have "walk d H (seg_first (fst ra)) g =
          Some \<lparr>lines = lines g @ Ra (Rb K) (indent_level g), indent_level = indent_level g,
                visited = visited g \<union> {?c..<counter (snd ra)}
                            \<union> ({counter (snd ra)..<counter (snd rb)} \<union> VK)\<rparr>"
    using VK g gv D d c by (intro walksD [OF wa insta contb]) (auto simp: FlowSegment_def)
  moreover have "visited g \<union> {?c..<counter (snd ra)} \<union> ({counter (snd ra)..<counter (snd rb)} \<union> VK)
                 = visited g \<union> {?c..<counter (snd ?r)} \<union> VK"
    using c by auto
  ultimately show "walk d H (seg_first (fst ?r)) g =
               Some \<lparr>lines = lines g @ Ra (Rb K) (indent_level g), indent_level = indent_level g,
                     visited = visited g \<union> {?c..<counter (snd ?r)} \<union> VK\<rparr>"
    by (simp add: FlowSegment_def)
qed

lemma walks_while:
  assumes b: "built nb s rb" and wb: "walks H (counter s) rb nb Rb"
  shows "walks H (counter s) (p_while_stmt cc (fst rb) (snd rb)) (nb + 2)
           (\<lambda>K k. (ind k @ ''if ('' @ cc @ '') {'') # Rb (\<lambda>j. []) (Suc k)
                    @ [ind k @ ''} else {'', ind (Suc k) @ ''/* after while */''] @ K (Suc k)
                    @ [ind k @ ''}''])"
proof (rule walksI)
  fix nx fK D VK K and d :: nat and g :: gen_state
  let ?c = "counter s"
  let ?c2 = "counter (snd rb)"
  let ?r = "p_while_stmt cc (fst rb) (snd rb)"
  let ?k = "indent_level g"
  assume inst: "installed H ?c ?r nx" and K: "continues H nx fK D VK K"
    and VK: "VK \<inter> {?c..<counter (snd ?r)} = {}"
    and g: "visited g \<inter> {?c..<counter (snd ?r)} = {}"
    and gv: "visited g \<inter> VK = {}"
    and D: "D \<subseteq> insert (seg_first (fst ?r)) (visited g)"
    and d: "nb + 2 + fK \<le> d"
  obtain cb where cb: "nodes (snd rb) (seg_last (fst rb)) = Some (OperationNode cb [])"
    using b by (auto simp: built_def segment_ok_def)
  have lb: "seg_last (fst rb) < ?c2" "?c \<le> seg_last (fst rb)"
    and c2: "?c2 = ?c + nb"
    using b by (auto simp: built_def segment_ok_def)
  note eff = p_while_stmt_effect [OF cb lb(1), of cc]
  have cr: "counter (snd ?r) = ?c + nb + 2" "seg_first (fst ?r) = ?c2" "seg_last (fst ?r) = Suc ?c2"
    using eff c2 by (simp_all add: FlowSegment_def)
  have Hc: "H ?c2 = Some (ConditionNode cc (Some (seg_first (fst rb))) (Some (Suc ?c2)) [])"
    using inst eff(3) [of ?c2] cr c2 by (auto simp: installed_def)
  have Ha: "H (Suc ?c2) = Some (OperationNode ''/* after while */'' nx)"
    using inst eff(3) [of "Suc ?c2"] cr by (auto simp: installed_def)
  have instb: "installed H ?c rb [?c2]"
    unfolding installed_def
  proof (intro conjI allI impI)
    fix i assume i: "?c \<le> i \<and> i < ?c2 \<and> i \<noteq> seg_last (fst rb)"
    then have "H i = nodes (snd ?r) i"
      using inst cr c2 by (auto simp: installed_def)
    then show "H i = nodes (snd rb) i"
      using i eff(3) [of i] by simp
  next
    have "H (seg_last (fst rb)) = nodes (snd ?r) (seg_last (fst rb))"
      using inst lb cr c2 by (auto simp: installed_def)
    then show "\<exists>code. nodes (snd rb) (seg_last (fst rb)) = Some (OperationNode code [])
                 \<and> H (seg_last (fst rb)) = Some (OperationNode code [?c2])"
      using cb lb eff(3) [of "seg_last (fst rb)"] by simp
  qed
  obtain d1 where d1: "d = Suc d1" "nb + 1 + fK \<le> d1" using depth_Suc [of "nb + 1 + fK" d] d by auto
  obtain d2 where d2: "d1 = Suc d2" "nb + fK \<le> d2" using depth_Suc [of "nb + fK" d1] d1 by auto
  have nv: "?c2 \<notin> visited g" "Suc ?c2 \<notin> visited g" using g cr c2 by auto
  have nk: "?c2 \<notin> VK" "Suc ?c2 \<notin> VK" using VK cr c2 by auto
  let ?l1 = "lines g @ [ind ?k @ ''if ('' @ cc @ '') {'']"
  let ?g1 = "\<lparr>lines = ?l1, indent_level = Suc ?k, visited = insert ?c2 (visited g)\<rparr>"
  let ?l2 = "?l1 @ Rb (\<lambda>j. []) (Suc ?k)"
  let ?v2 = "insert ?c2 (visited g) \<union> {?c..<?c2}"
  have gb: "visited ?g1 \<inter> {?c..<?c2} = {}"
    using g cr c2 by (auto simp: disjoint_iff)
  have w1: "walk d1 H (seg_first (fst rb)) ?g1 =
              Some \<lparr>lines = ?l2, indent_level = Suc ?k, visited = ?v2\<rparr>"
    using walksD [OF wb instb cont_visited _ gb, of d1] d1 by auto
  let ?g2 = "\<lparr>lines = ?l2 @ [ind ?k @ ''} else {''], indent_level = Suc ?k, visited = ?v2\<rparr>"
  let ?g3 = "\<lparr>lines = lines ?g2 @ [ind (Suc ?k) @ ''/* after while */''], indent_level = Suc ?k,
              visited = insert (Suc ?c2) ?v2\<rparr>"
  have na: "Suc ?c2 \<notin> visited ?g2" using nv by auto
  have g3: "D \<subseteq> visited ?g3" "visited ?g3 \<inter> VK = {}"
    using D gv nk VK cr c2 by (auto simp: disjoint_iff)
  have "walk_all d2 H nx ?g3 =
          Some \<lparr>lines = lines ?g3 @ K (Suc ?k), indent_level = Suc ?k, visited = visited ?g3 \<union> VK\<rparr>"
    using continuesD [OF K _ g3, of d2] d2 by simp
  then have w2: "walk d1 H (Suc ?c2) ?g2 =
              Some \<lparr>lines = lines ?g3 @ K (Suc ?k), indent_level = Suc ?k, visited = visited ?g3 \<union> VK\<rparr>"
    using walk_op [of "Suc ?c2" ?g2 H "''/* after while */''" nx d2] na Ha by (simp add: d2)
  have "walk d H ?c2 g =
          Some \<lparr>lines = (lines ?g3 @ K (Suc ?k)) @ [ind ?k @ ''}''], indent_level = ?k,
                visited = visited ?g3 \<union> VK\<rparr>"
    unfolding d1 by (rule walk_cond [OF nv(1) Hc w1 w2])
  moreover have "visited ?g3 \<union> VK = visited g \<union> {?c..<counter (snd ?r)} \<union> VK"
    using cr c2 by auto
  ultimately show "walk d H (seg_first (fst ?r)) g =
      Some \<lparr>lines = lines g @ ((ind ?k @ ''if ('' @ cc @ '') {'') # Rb (\<lambda>j. []) (Suc ?k)
                    @ [ind ?k @ ''} else {'', ind (Suc ?k) @ ''/* after while */''] @ K (Suc ?k)
                    @ [ind ?k @ ''}'']),
            indent_level = ?k, visited = visited g \<union> {?c..<counter (snd ?r)} \<union> VK\<rparr>"
    by (simp add: cr)
qed

lemma walks_if:
  assumes t: "built nt s rt" and wt: "walks H (counter s) rt nt Rt"
  shows "walks H (counter s) (p_if_stmt cc (fst rt) None (snd rt)) (nt + 2)
           (\<lambda>K k. (ind k @ ''if ('' @ cc @ '') {'')
                    # Rt (\<lambda>j. (ind j @ ''/* join */'') # K j) (Suc k)
                    @ [ind k @ ''} else {'', ind k @ ''}''])"
proof (rule walksI)
  fix nx fK D VK K and d :: nat and g :: gen_state
  let ?c = "counter s"
  let ?c2 = "counter (snd rt)"
  let ?r = "p_if_stmt cc (fst rt) None (snd rt)"
  let ?k = "indent_level g"
  assume inst: "installed H ?c ?r nx" and K: "continues H nx fK D VK K"
    and VK: "VK \<inter> {?c..<counter (snd ?r)} = {}"
    and g: "visited g \<inter> {?c..<counter (snd ?r)} = {}"
    and gv: "visited g \<inter> VK = {}"
    and D: "D \<subseteq> insert (seg_first (fst ?r)) (visited g)"
    and d: "nt + 2 + fK \<le> d"
  obtain ct where ct: "nodes (snd rt) (seg_last (fst rt)) = Some (OperationNode ct [])"
    using t by (auto simp: built_def segment_ok_def)
  have lt: "seg_last (fst rt) < ?c2" "?c \<le> seg_last (fst rt)"
    and c2: "?c2 = ?c + nt"
    using t by (auto simp: built_def segment_ok_def)
  note eff = p_if_stmt_effect [OF ct lt(1), of cc]
  have cr: "counter (snd ?r) = ?c + nt + 2" "seg_first (fst ?r) = ?c2" "seg_last (fst ?r) = Suc ?c2"
    using eff c2 by (simp_all add: FlowSegment_def)
  have Hc: "H ?c2 = Some (ConditionNode cc (Some (seg_first (fst rt))) (Some (Suc ?c2)) [])"
    using inst eff(3) [of ?c2] cr c2 by (auto simp: installed_def)
  have Hj: "H (Suc ?c2) = Some (OperationNode ''/* join */'' nx)"
    using inst eff(3) [of "Suc ?c2"] cr by (auto simp: installed_def)
  have instt: "installed H ?c rt [Suc ?c2]"
    unfolding installed_def
  proof (intro conjI allI impI)
    fix i assume i: "?c \<le> i \<and> i < ?c2 \<and> i \<noteq> seg_last (fst rt)"
    then have "H i = nodes (snd ?r) i"
      using inst cr c2 by (auto simp: installed_def)
    then show "H i = nodes (snd rt) i"
      using i eff(3) [of i] by simp
  next
    have "H (seg_last (fst rt)) = nodes (snd ?r) (seg_last (fst rt))"
      using inst lt cr c2 by (auto simp: installed_def)
    then show "\<exists>code. nodes (snd rt) (seg_last (fst rt)) = Some (OperationNode code [])
                 \<and> H (seg_last (fst rt)) = Some (OperationNode code [Suc ?c2])"
      using ct lt eff(3) [of "seg_last (fst rt)"] by simp
  qed
  obtain d1 where d1: "d = Suc d1" "nt + 1 + fK \<le> d1" using depth_Suc [of "nt + 1 + fK" d] d by auto
  obtain d2 where d2: "d1 = Suc d2" using depth_Suc [of "nt + fK" d1] d1 by auto
  have nv: "?c2 \<notin> visited g" "Suc ?c2 \<notin> visited g" using g cr c2 by auto
  have nk: "?c2 \<notin> VK" "Suc ?c2 \<notin> VK" using VK cr c2 by auto
  note contj = cont_op [OF Hj K nk(2)]
  let ?l1 = "lines g @ [ind ?k @ ''if ('' @ cc @ '') {'']"
  let ?g1 = "\<lparr>lines = ?l1, indent_level = Suc ?k, visited = insert ?c2 (visited g)\<rparr>"
  let ?l2 = "?l1 @ Rt (\<lambda>j. (ind j @ ''/* join */'') # K j) (Suc ?k)"
  let ?v2 = "insert ?c2 (visited g) \<union> {?c..<?c2} \<union> insert (Suc ?c2) VK"
  have g1: "insert (Suc ?c2) VK \<inter> {?c..<?c2} = {}" "visited ?g1 \<inter> {?c..<?c2} = {}"
    "visited ?g1 \<inter> insert (Suc ?c2) VK = {}" "D \<subseteq> insert (seg_first (fst rt)) (visited ?g1)"
    using g gv VK D nv nk cr c2 by (auto simp: disjoint_iff)
  have w1: "walk d1 H (seg_first (fst rt)) ?g1 =
              Some \<lparr>lines = ?l2, indent_level = Suc ?k, visited = ?v2\<rparr>"
    using walksD [OF wt instt contj g1, of d1] d1 by auto
  let ?g2 = "\<lparr>lines = ?l2 @ [ind ?k @ ''} else {''], indent_level = Suc ?k, visited = ?v2\<rparr>"
  have w2: "walk d1 H (Suc ?c2) ?g2 = Some ?g2"
    unfolding d2 by (rule walk_visited) simp
  have "walk d H ?c2 g =
          Some \<lparr>lines = (?l2 @ [ind ?k @ ''} else {'']) @ [ind ?k @ ''}''], indent_level = ?k,
                visited = ?v2\<rparr>"
    unfolding d1 by (rule walk_cond [OF nv(1) Hc w1 w2])
  moreover have "?v2 = visited g \<union> {?c..<counter (snd ?r)} \<union> VK"
    using cr c2 by auto
  ultimately show "walk d H (seg_first (fst ?r)) g =
      Some \<lparr>lines = lines g @ ((ind ?k @ ''if ('' @ cc @ '') {'')
                    # Rt (\<lambda>j. (ind j @ ''/* join */'') # K j) (Suc ?k)
                    @ [ind ?k @ ''} else {'', ind ?k @ ''}'']),
            indent_level = ?k, visited = visited g \<union> {?c..<counter (snd ?r)} \<union> VK\<rparr>"
    by (simp add: cr)
qed

lemma walks_if_else:
  assumes t: "built nt s rt" and e: "built ne (snd rt) re"
    and wt: "walks H (counter s) rt nt Rt" and we: "walks H (counter (snd rt)) re ne Re"
  shows "walks H (counter s) (p_if_stmt cc (fst rt) (Some (fst re)) (snd re)) (nt + ne + 2)
           (\<lambda>K k. (ind k @ ''if ('' @ cc @ '') {'')
                    # Rt (\<lambda>j. (ind j @ ''/* join */'') # K j) (Suc k)
                    @ [ind k @ ''} else {''] @ Re (\<lambda>j. []) (Suc k) @ [ind k @ ''}''])"
proof (rule walksI)
  fix nx fK D VK K and d :: nat and g :: gen_state
  let ?c = "counter s"
  let ?c1 = "counter (snd rt)"
  let ?c2 = "counter (snd re)"
  let ?r = "p_if_stmt cc (fst rt) (Some (fst re)) (snd re)"
  let ?k = "indent_level g"
  assume inst: "installed H ?c ?r nx" and K: "continues H nx fK D VK K"
    and VK: "VK \<inter> {?c..<counter (snd ?r)} = {}"
    and g: "visited g \<inter> {?c..<counter (snd ?r)} = {}"
    and gv: "visited g \<inter> VK = {}"
    and D: "D \<subseteq> insert (seg_first (fst ?r)) (visited g)"
    and d: "nt + ne + 2 + fK \<le> d"
  obtain ct where ct: "nodes (snd rt) (seg_last (fst rt)) = Some (OperationNode ct [])"
    using t by (auto simp: built_def segment_ok_def)
  obtain ce where ce: "nodes (snd re) (seg_last (fst re)) = Some (OperationNode ce [])"
    using e by (auto simp: built_def segment_ok_def)
  have lt: "seg_last (fst rt) < ?c1" "?c \<le> seg_last (fst rt)"
    and c1: "?c1 = ?c + nt"
    using t by (auto simp: built_def segment_ok_def)
  have le: "seg_last (fst re) < ?c2" "?c1 \<le> seg_last (fst re)"
    and c2: "?c2 = ?c + nt + ne"
    using e c1 by (auto simp: built_def segment_ok_def)
  have fr: "\<And>i. i < ?c1 \<Longrightarrow> nodes (snd re) i = nodes (snd rt) i"
    using e by (auto simp: built_def)
  have ct': "nodes (snd re) (seg_last (fst rt)) = Some (OperationNode ct [])"
    using fr [OF lt(1)] ct by simp
  have dd: "seg_last (fst rt) < ?c2" "seg_last (fst rt) \<noteq> seg_last (fst re)"
    using lt le c1 c2 by auto
  note eff = p_if_stmt_else_effect [OF ct' ce dd(1) le(1) dd(2), of cc]
  have cr: "counter (snd ?r) = ?c + nt + ne + 2" "seg_first (fst ?r) = ?c2"
    "seg_last (fst ?r) = Suc ?c2"
    using eff c2 by (simp_all add: FlowSegment_def)
  have Hc: "H ?c2 = Some (ConditionNode cc (Some (seg_first (fst rt))) (Some (seg_first (fst re))) [])"
    using inst eff(3) [of ?c2] cr c2 by (auto simp: installed_def)
  have Hj: "H (Suc ?c2) = Some (OperationNode ''/* join */'' nx)"
    using inst eff(3) [of "Suc ?c2"] cr by (auto simp: installed_def)
  have instt: "installed H ?c rt [Suc ?c2]"
    unfolding installed_def
  proof (intro conjI allI impI)
    fix i assume i: "?c \<le> i \<and> i < ?c1 \<and> i \<noteq> seg_last (fst rt)"
    then have "H i = nodes (snd ?r) i"
      using inst cr c1 c2 by (auto simp: installed_def)
    then show "H i = nodes (snd rt) i"
      using i eff(3) [of i] fr [of i] le c1 c2 by simp
  next
    have "H (seg_last (fst rt)) = nodes (snd ?r) (seg_last (fst rt))"
      using inst lt cr c1 c2 by (auto simp: installed_def)
    then show "\<exists>code. nodes (snd rt) (seg_last (fst rt)) = Some (OperationNode code [])
                 \<and> H (seg_last (fst rt)) = Some (OperationNode code [Suc ?c2])"
      using ct lt c1 c2 eff(3) [of "seg_last (fst rt)"] by simp
  qed
  have inste: "installed H ?c1 re [Suc ?c2]"
    unfolding installed_def
  proof (intro conjI allI impI)
    fix i assume i: "?c1 \<le> i \<and> i < ?c2 \<and> i \<noteq> seg_last (fst re)"
    then have "H i = nodes (snd ?r) i"
      using inst cr c1 c2 by (auto simp: installed_def)
    then show "H i = nodes (snd re) i"
      using i eff(3) [of i] lt c1 c2 by simp
  next
    have "H (seg_last (fst re)) = nodes (snd ?r) (seg_last (fst re))"
      using inst le cr c1 c2 by (auto simp: installed_def)
    then show "\<exists>code. nodes (snd re) (seg_last (fst re)) = Some (OperationNode code [])
                 \<and> H (seg_last (fst re)) = Some (OperationNode code [Suc ?c2])"
      using ce le dd c1 c2 eff(3) [of "seg_last (fst re)"] by simp
  qed
  obtain d1 where d1: "d = Suc d1" "nt + ne + 1 + fK \<le> d1"
    using depth_Suc [of "nt + ne + 1 + fK" d] d by auto
  have nv: "?c2 \<notin> visited g" "Suc ?c2 \<notin> visited g" using g cr c2 by auto
  have nk: "?c2 \<notin> VK" "Suc ?c2 \<notin> VK" using VK cr c2 by auto
  note contj = cont_op [OF Hj K nk(2)]
  let ?l1 = "lines g @ [ind ?k @ ''if ('' @ cc @ '') {'']"
  let ?g1 = "\<lparr>lines = ?l1, indent_level = Suc ?k, visited = insert ?c2 (visited g)\<rparr>"
  let ?l2 = "?l1 @ Rt (\<lambda>j. (ind j @ ''/* join */'') # K j) (Suc ?k)"
  let ?v2 = "insert ?c2 (visited g) \<union> {?c..<?c1} \<union> insert (Suc ?c2) VK"
  have g1: "insert (Suc ?c2) VK \<inter> {?c..<?c1} = {}" "visited ?g1 \<inter> {?c..<?c1} = {}"
    "visited ?g1 \<inter> insert (Suc ?c2) VK = {}" "D \<subseteq> insert (seg_first (fst rt)) (visited ?g1)"
    using g gv VK D nv nk cr c1 c2 by (auto simp: disjoint_iff)
  have w1: "walk d1 H (seg_first (fst rt)) ?g1 =
              Some \<lparr>lines = ?l2, indent_level = Suc ?k, visited = ?v2\<rparr>"
    using walksD [OF wt instt contj g1, of d1] d1 by auto
  let ?g2 = "\<lparr>lines = ?l2 @ [ind ?k @ ''} else {''], indent_level = Suc ?k, visited = ?v2\<rparr>"
  let ?l3 = "lines ?g2 @ Re (\<lambda>j. []) (Suc ?k)"
  let ?v3 = "?v2 \<union> {?c1..<?c2} \<union> {}"
  have g2: "{} \<inter> {?c1..<?c2} = {}" "visited ?g2 \<inter> {?c1..<?c2} = {}"
    "visited ?g2 \<inter> {} = {}" "{Suc ?c2} \<subseteq> insert (seg_first (fst re)) (visited ?g2)"
    using g gv VK D nv nk cr c1 c2 by (auto simp: disjoint_iff)
  have w2: "walk d1 H (seg_first (fst re)) ?g2 =
              Some \<lparr>lines = ?l3, indent_level = Suc ?k, visited = ?v3\<rparr>"
    using walksD [OF we inste cont_visited g2, of d1] d1 by auto
  have "walk d H ?c2 g =
          Some \<lparr>lines = ?l3 @ [ind ?k @ ''}''], indent_level = ?k, visited = ?v3\<rparr>"
    unfolding d1 by (rule walk_cond [OF nv(1) Hc w1 w2])
  moreover have "?v3 = visited g \<union> {?c..<counter (snd ?r)} \<union> VK"
    using cr c1 c2 by auto
  ultimately show "walk d H (seg_first (fst ?r)) g =
      Some \<lparr>lines = lines g @ ((ind ?k @ ''if ('' @ cc @ '') {'')
                    # Rt (\<lambda>j. (ind j @ ''/* join */'') # K j) (Suc ?k)
                    @ [ind ?k @ ''} else {''] @ Re (\<lambda>j. []) (Suc ?k) @ [ind ?k @ ''}'']),
            indent_level = ?k, visited = visited g \<union> {?c..<counter (snd ?r)} \<union> VK\<rparr>"
    by (simp add: cr)
qed

lemma walks_for:
  assumes b: "built nb s rb" and wb: "walks H (counter s) rb nb Rb"
  shows "walks H (counter s) (p_for_stmt v lo p5 hi (fst rb) (snd rb)) (nb + 4)
           (\<lambda>K k. (ind k @ v @ '' = '' @ lo @ '';'')
                    # (ind k @ ''if (''
                         @ (if lower p5 = ''downto'' then v @ '' >= '' @ hi else v @ '' <= '' @ hi)
                         @ '') {'')
                    # Rb (\<lambda>j. [ind j @ (if lower p5 = ''downto'' then v @ ''--;'' else v @ ''++;'')])
                        (Suc k)
                    @ [ind k @ ''} else {'', ind (Suc k) @ ''/* after for */''] @ K (Suc k)
                    @ [ind k @ ''}''])"
proof (rule walksI)
  fix nx fK D VK K and d :: nat and g :: gen_state
  let ?c = "counter s"
  let ?c2 = "counter (snd rb)"
  let ?r = "p_for_stmt v lo p5 hi (fst rb) (snd rb)"
  let ?k = "indent_level g"
  let ?cc = "if lower p5 = ''downto'' then v @ '' >= '' @ hi else v @ '' <= '' @ hi"
  let ?st = "if lower p5 = ''downto'' then v @ ''--;'' else v @ ''++;''"
  assume inst: "installed H ?c ?r nx" and K: "continues H nx fK D VK K"
    and VK: "VK \<inter> {?c..<counter (snd ?r)} = {}"
    and g: "visited g \<inter> {?c..<counter (snd ?r)} = {}"
    and gv: "visited g \<inter> VK = {}"
    and D: "D \<subseteq> insert (seg_first (fst ?r)) (visited g)"
    and d: "nb + 4 + fK \<le> d"
  obtain cb where cb: "nodes (snd rb) (seg_last (fst rb)) = Some (OperationNode cb [])"
    using b by (auto simp: built_def segment_ok_def)
  have lb: "seg_last (fst rb) < ?c2" "?c \<le> seg_last (fst rb)"
    and c2: "?c2 = ?c + nb"
    using b by (auto simp: built_def segment_ok_def)
  note eff = p_for_stmt_effect [OF cb lb(1), of v lo p5 hi]
  have cr: "counter (snd ?r) = ?c + nb + 4" "seg_first (fst ?r) = ?c2" "seg_last (fst ?r) = ?c2 + 3"
    using eff c2 by (simp_all add: FlowSegment_def)
  have Hi: "H ?c2 = Some (OperationNode (v @ '' = '' @ lo @ '';'') [Suc ?c2])"
    using inst eff(3) [of ?c2] cr c2 by (auto simp: installed_def)
  have Hc: "H (Suc ?c2) = Some (ConditionNode ?cc (Some (seg_first (fst rb))) (Some (?c2 + 3)) [])"
    using inst eff(3) [of "Suc ?c2"] cr c2 by (auto simp: installed_def)
  have Hs: "H (?c2 + 2) = Some (OperationNode ?st [Suc ?c2])"
    using inst eff(3) [of "?c2 + 2"] cr c2 by (auto simp: installed_def)
  have Ha: "H (?c2 + 3) = Some (OperationNode ''/* after for */'' nx)"
    using inst eff(3) [of "?c2 + 3"] cr by (auto simp: installed_def)
  have instb: "installed H ?c rb [?c2 + 2]"
    unfolding installed_def
  proof (intro conjI allI impI)
    fix i assume i: "?c \<le> i \<and> i < ?c2 \<and> i \<noteq> seg_last (fst rb)"
    then have "H i = nodes (snd ?r) i"
      using inst cr c2 by (auto simp: installed_def)
    then show "H i = nodes (snd rb) i"
      using i eff(3) [of i] by simp
  next
    have "H (seg_last (fst rb)) = nodes (snd ?r) (seg_last (fst rb))"
      using inst lb cr c2 by (auto simp: installed_def)
    then show "\<exists>code. nodes (snd rb) (seg_last (fst rb)) = Some (OperationNode code [])
                 \<and> H (seg_last (fst rb)) = Some (OperationNode code [?c2 + 2])"
      using cb lb eff(3) [of "seg_last (fst rb)"] by simp
  qed
  obtain d0 where d0: "d = Suc d0" "nb + 3 + fK \<le> d0" using depth_Suc [of "nb + 3 + fK" d] d by auto
  obtain d1 where d1: "d0 = Suc d1" "nb + 2 + fK \<le> d1" using depth_Suc [of "nb + 2 + fK" d0] d0 by auto
  obtain d2 where d2: "d1 = Suc d2" "nb + 1 + fK \<le> d2" using depth_Suc [of "nb + 1 + fK" d1] d1 by auto
  have nv: "?c2 \<notin> visited g" "Suc ?c2 \<notin> visited g" "?c2 + 2 \<notin> visited g" "?c2 + 3 \<notin> visited g"
    using g cr c2 by auto
  have nk: "?c2 \<notin> VK" "Suc ?c2 \<notin> VK" "?c2 + 2 \<notin> VK" "?c2 + 3 \<notin> VK"
    using VK cr c2 by auto
  have conts: "continues H [?c2 + 2] (Suc 1) {Suc ?c2} (insert (?c2 + 2) {})
                 (\<lambda>j. (ind j @ ?st) # [])"
    using cont_op [of H "counter (snd rb) + 2" _ "[Suc (counter (snd rb))]" 1
                      "{Suc (counter (snd rb))}" "{}" "\<lambda>j. []"]
      Hs cont_visited [of H "Suc (counter (snd rb))"]
    by simp
  let ?l0 = "lines g @ [ind ?k @ v @ '' = '' @ lo @ '';'']"
  let ?g0 = "\<lparr>lines = ?l0, indent_level = ?k, visited = insert ?c2 (visited g)\<rparr>"
  let ?l1 = "?l0 @ [ind ?k @ ''if ('' @ ?cc @ '') {'']"
  let ?g1 = "\<lparr>lines = ?l1, indent_level = Suc ?k, visited = insert (Suc ?c2) (visited ?g0)\<rparr>"
  let ?l2 = "?l1 @ Rb (\<lambda>j. [ind j @ ?st]) (Suc ?k)"
  let ?v2 = "insert (Suc ?c2) (visited ?g0) \<union> {?c..<?c2} \<union> {?c2 + 2}"
  have g1: "{?c2 + 2} \<inter> {?c..<?c2} = {}" "visited ?g1 \<inter> {?c..<?c2} = {}"
    "visited ?g1 \<inter> {?c2 + 2} = {}" "{Suc ?c2} \<subseteq> insert (seg_first (fst rb)) (visited ?g1)"
    using g nv cr c2 by (auto simp: disjoint_iff)
  have w1: "walk d1 H (seg_first (fst rb)) ?g1 =
              Some \<lparr>lines = ?l2, indent_level = Suc ?k, visited = ?v2\<rparr>"
    using walksD [OF wb instb conts g1, of d1] d1 by auto
  let ?g2 = "\<lparr>lines = ?l2 @ [ind ?k @ ''} else {''], indent_level = Suc ?k, visited = ?v2\<rparr>"
  let ?g3 = "\<lparr>lines = lines ?g2 @ [ind (Suc ?k) @ ''/* after for */''], indent_level = Suc ?k,
              visited = insert (?c2 + 3) ?v2\<rparr>"
  have na: "?c2 + 3 \<notin> visited ?g2" using nv c2 by auto
  have g3: "D \<subseteq> visited ?g3" "visited ?g3 \<inter> VK = {}"
    using D gv nk VK cr c2 by (auto simp: disjoint_iff)
  have "walk_all d2 H nx ?g3 =
          Some \<lparr>lines = lines ?g3 @ K (Suc ?k), indent_level = Suc ?k, visited = visited ?g3 \<union> VK\<rparr>"
    using continuesD [OF K _ g3, of d2] d2 by simp
  then have w2: "walk d1 H (?c2 + 3) ?g2 =
              Some \<lparr>lines = lines ?g3 @ K (Suc ?k), indent_level = Suc ?k, visited = visited ?g3 \<union> VK\<rparr>"
    using walk_op [of "?c2 + 3" ?g2 H "''/* after for */''" nx d2] na Ha by (simp add: d2)
  have nc: "Suc ?c2 \<notin> visited ?g0" using nv by simp
  have "walk d0 H (Suc ?c2) ?g0 =
          Some \<lparr>lines = (lines ?g3 @ K (Suc ?k)) @ [ind ?k @ ''}''], indent_level = ?k,
                visited = visited ?g3 \<union> VK\<rparr>"
    unfolding d1 by (rule walk_cond_at [OF _ Hc _ _ _ w1 w2]) (use nv in simp_all)
  then have "walk d H ?c2 g =
          Some \<lparr>lines = (lines ?g3 @ K (Suc ?k)) @ [ind ?k @ ''}''], indent_level = ?k,
                visited = visited ?g3 \<union> VK\<rparr>"
    using walk_op [of ?c2 g H "v @ '' = '' @ lo @ '';''" "[Suc ?c2]" d0] nv(1) Hi
    by (simp add: d0)
  moreover have "visited ?g3 \<union> VK = visited g \<union> {?c..<counter (snd ?r)} \<union> VK"
    using cr c2 by auto
  ultimately show "walk d H (seg_first (fst ?r)) g =
      Some \<lparr>lines = lines g @ ((ind ?k @ v @ '' = '' @ lo @ '';'')
                    # (ind ?k @ ''if ('' @ ?cc @ '') {'')
                    # Rb (\<lambda>j. [ind j @ ?st]) (Suc ?k)
                    @ [ind ?k @ ''} else {'', ind (Suc ?k) @ ''/* after for */''] @ K (Suc ?k)
                    @ [ind ?k @ ''}'']),
            indent_level = ?k, visited = visited g \<union> {?c..<counter (snd ?r)} \<union> VK\<rparr>"
    by (simp add: cr)
qed

lemma walks_repeat:
  assumes b: "built nb s rb" and wb: "walks H (counter s) rb nb Rb"
  shows "walks H (counter s) (p_repeat_stmt (fst rb) cc (snd rb)) (nb + 2)
           (\<lambda>K. Rb (\<lambda>j. (ind j @ ''if ('' @ cc @ '') {'') # (ind (Suc j) @ ''/* after repeat */'')
                          # K (Suc j) @ [ind j @ ''} else {'', ind j @ ''}'']))"
proof (rule walksI)
  fix nx fK D VK K and d :: nat and g :: gen_state
  let ?c = "counter s"
  let ?c2 = "counter (snd rb)"
  let ?r = "p_repeat_stmt (fst rb) cc (snd rb)"
  let ?bf = "seg_first (fst rb)"
  let ?KR = "\<lambda>j. (ind j @ ''if ('' @ cc @ '') {'') # (ind (Suc j) @ ''/* after repeat */'')
                          # K (Suc j) @ [ind j @ ''} else {'', ind j @ ''}'']"
  assume inst: "installed H ?c ?r nx" and K: "continues H nx fK D VK K"
    and VK: "VK \<inter> {?c..<counter (snd ?r)} = {}"
    and g: "visited g \<inter> {?c..<counter (snd ?r)} = {}"
    and gv: "visited g \<inter> VK = {}"
    and D: "D \<subseteq> insert (seg_first (fst ?r)) (visited g)"
    and d: "nb + 2 + fK \<le> d"
  obtain cb where cb: "nodes (snd rb) (seg_last (fst rb)) = Some (OperationNode cb [])"
    using b by (auto simp: built_def segment_ok_def)
  have lb: "seg_last (fst rb) < ?c2" "?c \<le> seg_last (fst rb)"
    and c2: "?c2 = ?c + nb"
    and fb: "?c \<le> ?bf" "?bf < ?c2"
    using b by (auto simp: built_def segment_ok_def)
  note eff = p_repeat_stmt_effect [OF cb lb(1), of cc]
  have cr: "counter (snd ?r) = ?c + nb + 2" "seg_first (fst ?r) = ?bf" "seg_last (fst ?r) = Suc ?c2"
    using eff c2 by (simp_all add: FlowSegment_def)
  have Hc: "H ?c2 = Some (ConditionNode cc (Some (Suc ?c2)) (Some ?bf) [])"
    using inst eff(3) [of ?c2] cr c2 by (auto simp: installed_def)
  have Ha: "H (Suc ?c2) = Some (OperationNode ''/* after repeat */'' nx)"
    using inst eff(3) [of "Suc ?c2"] cr by (auto simp: installed_def)
  have instb: "installed H ?c rb [?c2]"
    unfolding installed_def
  proof (intro conjI allI impI)
    fix i assume i: "?c \<le> i \<and> i < ?c2 \<and> i \<noteq> seg_last (fst rb)"
    then have "H i = nodes (snd ?r) i"
      using inst cr c2 by (auto simp: installed_def)
    then show "H i = nodes (snd rb) i"
      using i eff(3) [of i] by simp
  next
    have "H (seg_last (fst rb)) = nodes (snd ?r) (seg_last (fst rb))"
      using inst lb cr c2 by (auto simp: installed_def)
    then show "\<exists>code. nodes (snd rb) (seg_last (fst rb)) = Some (OperationNode code [])
                 \<and> H (seg_last (fst rb)) = Some (OperationNode code [?c2])"
      using cb lb eff(3) [of "seg_last (fst rb)"] by simp
  qed
  have nk: "?c2 \<notin> VK" "Suc ?c2 \<notin> VK" using VK cr c2 by auto
  have contR: "continues H [?c2] (fK + 2) (insert ?bf D) ({?c2, Suc ?c2} \<union> VK) ?KR"
  proof (rule continuesI)
    fix e :: nat and h :: gen_state
    assume e: "fK + 2 \<le> e" and Dh: "insert ?bf D \<subseteq> visited h"
      and Vh: "visited h \<inter> ({?c2, Suc ?c2} \<union> VK) = {}"
    let ?j = "indent_level h"
    obtain e1 where e1: "e = Suc e1" "fK + 1 \<le> e1" using depth_Suc [of "fK + 1" e] e by auto
    obtain e2 where e2: "e1 = Suc e2" "fK \<le> e2" using depth_Suc [of fK e1] e1 by auto
    have nh: "?c2 \<notin> visited h" "Suc ?c2 \<notin> visited h" using Vh by auto
    let ?l1 = "lines h @ [ind ?j @ ''if ('' @ cc @ '') {'']"
    let ?h1 = "\<lparr>lines = ?l1, indent_level = Suc ?j, visited = insert ?c2 (visited h)\<rparr>"
    let ?h2 = "\<lparr>lines = ?l1 @ [ind (Suc ?j) @ ''/* after repeat */''], indent_level = Suc ?j,
                visited = insert (Suc ?c2) (insert ?c2 (visited h))\<rparr>"
    have h2: "D \<subseteq> visited ?h2" "visited ?h2 \<inter> VK = {}"
      using Dh Vh nk by (auto simp: disjoint_iff)
    have "walk_all e2 H nx ?h2 =
            Some \<lparr>lines = lines ?h2 @ K (Suc ?j), indent_level = Suc ?j, visited = visited ?h2 \<union> VK\<rparr>"
      using continuesD [OF K _ h2, of e2] e2 by simp
    then have w1: "walk e1 H (Suc ?c2) ?h1 =
            Some \<lparr>lines = lines ?h2 @ K (Suc ?j), indent_level = Suc ?j, visited = visited ?h2 \<union> VK\<rparr>"
      using walk_op [of "Suc ?c2" ?h1 H "''/* after repeat */''" nx e2] nh Ha by (simp add: e2)
    let ?h3 = "\<lparr>lines = (lines ?h2 @ K (Suc ?j)) @ [ind ?j @ ''} else {''], indent_level = Suc ?j,
                visited = visited ?h2 \<union> VK\<rparr>"
    have w2: "walk e1 H ?bf ?h3 = Some ?h3"
      unfolding e2 using Dh by (intro walk_visited) auto
    have "walk e H ?c2 h =
            Some \<lparr>lines = ((lines ?h2 @ K (Suc ?j)) @ [ind ?j @ ''} else {'']) @ [ind ?j @ ''}''],
                  indent_level = ?j, visited = visited ?h2 \<union> VK\<rparr>"
      unfolding e1 by (rule walk_cond [OF nh(1) Hc w1 w2])
    moreover have "visited ?h2 \<union> VK = visited h \<union> ({?c2, Suc ?c2} \<union> VK)"
      by auto
    ultimately show "walk_all e H [?c2] h =
                 Some \<lparr>lines = lines h @ ?KR ?j, indent_level = ?j,
                       visited = visited h \<union> ({?c2, Suc ?c2} \<union> VK)\<rparr>"
      by simp
  qed
  have gb: "({?c2, Suc ?c2} \<union> VK) \<inter> {?c..<?c2} = {}" "visited g \<inter> {?c..<?c2} = {}"
    "visited g \<inter> ({?c2, Suc ?c2} \<union> VK) = {}" "insert ?bf D \<subseteq> insert ?bf (visited g)"
    using g gv VK D cr c2 by (auto simp: disjoint_iff)
  have "walk d H ?bf g =
          Some \<lparr>lines = lines g @ Rb ?KR (indent_level g), indent_level = indent_level g,
                visited = visited g \<union> {?c..<?c2} \<union> ({?c2, Suc ?c2} \<union> VK)\<rparr>"
    using walksD [OF wb instb contR gb, of d] d by simp
  moreover have "visited g \<union> {?c..<?c2} \<union> ({?c2, Suc ?c2} \<union> VK)
                 = visited g \<union> {?c..<counter (snd ?r)} \<union> VK"
    using cr c2 by auto
  ultimately show "walk d H (seg_first (fst ?r)) g =
      Some \<lparr>lines = lines g @ Rb ?KR (indent_level g), indent_level = indent_level g,
            visited = visited g \<union> {?c..<counter (snd ?r)} \<union> VK\<rparr>"
    by (simp add: cr)
qed

theorem p_stmt_walks:
  "walks H (counter s) (p_stmt st s) (node_count st) (render st)"
  "walks H (counter s) (p_stmt_list sl s) (node_count_list sl) (render_list sl)"
proof (induction st and sl arbitrary: s and s rule: node_count_node_count_list.induct)
  case (1 v e)
  show ?case
    using walks_leaf [of H s "v @ '' = '' @ p_expr e @ '';''"]
    by (simp add: p_assign_stmt_def new_node_def)
next
  case (2 c t)
  show ?case
    using walks_if [OF p_stmt_built(1) 2, where cc = "p_expr c"] by (simp add: case_prod_beta)
next
  case (3 c t e)
  show ?case
    using walks_if_else [OF p_stmt_built(1) p_stmt_built(1) 3(1) 3(2), where cc = "p_expr c"]
    by (simp add: case_prod_beta)
next
  case (4 c b)
  show ?case
    using walks_while [OF p_stmt_built(1) 4, where cc = "p_expr c"] by (simp add: case_prod_beta)
next
  case (5 v lo p5 hi b)
  show ?case
    using walks_for [OF p_stmt_built(1) 5, where v = v and lo = "p_expr lo" and ?p5.0 = p5 and hi = "p_expr hi"]
    by (simp add: case_prod_beta)
next
  case (6 b c)
  show ?case
    using walks_repeat [OF p_stmt_built(2) 6, where cc = "p_expr c"] by (simp add: case_prod_beta)
next
  case (7 p1 es)
  show ?case
    using walks_leaf [of H s "io_code p1 (p_expr_list es)"]
    by (simp add: p_io_stmt_def new_node_def)
next
  case (8 p1 vs)
  show ?case
    using walks_leaf [of H s "io_code p1 (p_id_expr_list vs)"]
    by (simp add: p_io_stmt_def new_node_def)
next
  case (9 b)
  then show ?case by simp
next
  case 10
  show ?case
    using walks_leaf [of H s "''/* empty */''"] by (simp add: p_empty_stmt_def new_node_def)
next
  case (11 st)
  then show ?case by simp
next
  case (12 sl st)
  show ?case
    using walks_seq [OF p_stmt_built(2) p_stmt_built(1) 12(1) 12(2)]
    by (simp add: case_prod_beta Let_def)
qed

section \<open>The text of a program\<close>

lemma p_program_effect:
  fixes sl s
  defines "r \<equiv> p_stmt_list sl s"
  defines "c2 \<equiv> counter s + node_count_list sl"
  shows "fst (p_program (Program vs sl) s) = FlowSegment c2 (Suc c2)"
    and "counter (snd (p_program (Program vs sl) s)) = c2 + 2"
    and "\<exists>cl. nodes (snd r) (seg_last (fst r)) = Some (OperationNode cl []) \<and>
          (\<forall>i. nodes (snd (p_program (Program vs sl) s)) i =
             (if i = c2 then Some (StartNode [seg_first (fst r)])
              else if i = Suc c2 then Some (EndNode [])
              else if i = seg_last (fst r) then Some (OperationNode cl [Suc c2])
              else nodes (snd r) i))"
proof -
  have b: "built (node_count_list sl) s r"
    unfolding r_def by (rule p_stmt_built)
  then obtain cl where cl: "nodes (snd r) (seg_last (fst r)) = Some (OperationNode cl [])"
    by (auto simp: built_def segment_ok_def)
  have l: "seg_last (fst r) < counter (snd r)" and c: "counter (snd r) = c2"
    using b by (auto simp: built_def segment_ok_def c2_def)
  show "fst (p_program (Program vs sl) s) = FlowSegment c2 (Suc c2)"
    using c by (simp add: p_program.simps case_prod_beta Let_def new_node_def r_def [symmetric])
  show "counter (snd (p_program (Program vs sl) s)) = c2 + 2"
    using c by (simp add: p_program.simps case_prod_beta Let_def new_node_def r_def [symmetric])
  have "\<forall>i. nodes (snd (p_program (Program vs sl) s)) i =
             (if i = c2 then Some (StartNode [seg_first (fst r)])
              else if i = Suc c2 then Some (EndNode [])
              else if i = seg_last (fst r) then Some (OperationNode cl [Suc c2])
              else nodes (snd r) i)"
    using c cl l
    by (auto simp: p_program.simps case_prod_beta Let_def new_node_def r_def [symmetric] connect_nodes)
  then show "\<exists>cl. nodes (snd r) (seg_last (fst r)) = Some (OperationNode cl []) \<and>
          (\<forall>i. nodes (snd (p_program (Program vs sl) s)) i =
             (if i = c2 then Some (StartNode [seg_first (fst r)])
              else if i = Suc c2 then Some (EndNode [])
              else if i = seg_last (fst r) then Some (OperationNode cl [Suc c2])
              else nodes (snd r) i))"
    using cl by blast
qed

declare p_program.simps [simp del]

lemma walk_program:
  fixes g :: gen_state
  assumes d: "node_count_list sl + 2 \<le> d"
    and g: "visited g \<inter> {counter s..<counter s + node_count_list sl + 2} = {}"
  shows "walk d (nodes (snd (p_program (Program vs sl) s)))
              (seg_first (fst (p_program (Program vs sl) s))) g =
           Some \<lparr>lines = lines g @ render_list sl (\<lambda>j. []) (indent_level g),
                 indent_level = indent_level g,
                 visited = visited g \<union> {counter s..<counter s + node_count_list sl + 2}\<rparr>"
proof -
  let ?r = "p_stmt_list sl s"
  let ?c = "counter s"
  let ?c2 = "?c + node_count_list sl"
  let ?H = "nodes (snd (p_program (Program vs sl) s))"
  have b: "built (node_count_list sl) s ?r" by (rule p_stmt_built)
  have l: "seg_last (fst ?r) < ?c2" "?c \<le> seg_last (fst ?r)" and c: "counter (snd ?r) = ?c2"
    using b by (auto simp: built_def segment_ok_def)
  obtain cl where cl: "nodes (snd ?r) (seg_last (fst ?r)) = Some (OperationNode cl [])"
    and H: "\<And>i. ?H i =
             (if i = ?c2 then Some (StartNode [seg_first (fst ?r)])
              else if i = Suc ?c2 then Some (EndNode [])
              else if i = seg_last (fst ?r) then Some (OperationNode cl [Suc ?c2])
              else nodes (snd ?r) i)"
    using p_program_effect(3) [of sl s vs] by blast
  have first: "seg_first (fst (p_program (Program vs sl) s)) = ?c2"
    using p_program_effect(1) [of vs sl s] by (simp add: FlowSegment_def)
  have inst: "installed ?H ?c ?r [Suc ?c2]"
    unfolding installed_def using cl l c by (auto simp: H)
  have cont: "continues ?H [Suc ?c2] 1 {} {Suc ?c2} (\<lambda>j. [])"
  proof (rule continuesI)
    fix e :: nat and h :: gen_state
    assume e: "1 \<le> e" and V: "visited h \<inter> {Suc ?c2} = {}"
    obtain e1 where e1: "e = Suc e1" using depth_Suc [of 0 e] e by auto
    have nh: "Suc ?c2 \<notin> visited h" using V by auto
    have "?H (Suc ?c2) = Some (EndNode [])" by (simp add: H)
    then have "walk e ?H (Suc ?c2) h =
            Some \<lparr>lines = lines h, indent_level = indent_level h,
                  visited = insert (Suc ?c2) (visited h)\<rparr>"
      using walk_plain [of "Suc ?c2" h ?H "[]" e1] nh by (simp add: e1)
    then show "walk_all e ?H [Suc ?c2] h =
                 Some \<lparr>lines = lines h @ [], indent_level = indent_level h,
                       visited = visited h \<union> {Suc ?c2}\<rparr>"
      by simp
  qed
  obtain d1 where d1: "d = Suc d1" "node_count_list sl + 1 \<le> d1"
    using depth_Suc [of "node_count_list sl + 1" d] d by auto
  let ?g1 = "\<lparr>lines = lines g, indent_level = indent_level g, visited = insert ?c2 (visited g)\<rparr>"
  have g1: "{Suc ?c2} \<inter> {?c..<counter (snd ?r)} = {}" "visited ?g1 \<inter> {?c..<counter (snd ?r)} = {}"
    "visited ?g1 \<inter> {Suc ?c2} = {}" "{} \<subseteq> insert (seg_first (fst ?r)) (visited ?g1)"
    using g c by (auto simp: disjoint_iff)
  have "walk d1 ?H (seg_first (fst ?r)) ?g1 =
          Some \<lparr>lines = lines g @ render_list sl (\<lambda>j. []) (indent_level g),
                indent_level = indent_level g,
                visited = insert ?c2 (visited g) \<union> {?c..<counter (snd ?r)} \<union> {Suc ?c2}\<rparr>"
    using walksD [OF p_stmt_walks(2) inst cont g1, of d1] d1 by simp
  moreover have "insert ?c2 (visited g) \<union> {?c..<counter (snd ?r)} \<union> {Suc ?c2}
                 = visited g \<union> {?c..<?c2 + 2}"
    using c by auto
  moreover have "?c2 \<notin> visited g" using g by auto
  moreover have "?H ?c2 = Some (StartNode [seg_first (fst ?r)])" by (simp add: H)
  ultimately show ?thesis
    using walk_plain [of ?c2 g ?H "[seg_first (fst ?r)]" d1]
    by (simp add: d1 first)
qed

theorem generate_program:
  assumes "program_nodes p \<le> d"
  shows "generate d (nodes (snd (p_program p s))) (seg_first (fst (p_program p s))) =
           Some (join [CHR 0x0A] (program_lines p))"
proof (cases p)
  case (Program vs sl)
  have d: "node_count_list sl + 2 \<le> d" using assms Program by simp
  let ?g = "\<lparr>lines = [''#include <stdio.h>'', [], ''int main() {''], indent_level = 1,
             visited = {}\<rparr>"
  have "walk d (nodes (snd (p_program (Program vs sl) s)))
              (seg_first (fst (p_program (Program vs sl) s))) ?g =
           Some \<lparr>lines = lines ?g @ render_list sl (\<lambda>j. []) (indent_level ?g),
                 indent_level = indent_level ?g,
                 visited = visited ?g \<union> {counter s..<counter s + node_count_list sl + 2}\<rparr>"
    by (rule walk_program [OF d]) simp
  then show ?thesis
    unfolding Program generate_def
    by (simp add: Let_def emit_def indent_def FlowCGenerator_def gen_state_canon)
qed

section \<open>The lines of the text\<close>

lemma render_shapes:
  "render (Assign v e) K k = op_line k (v @ '' = '' @ p_expr e @ '';'') # K k"
  "render (If c t None) K k =
     if_line k (p_expr c) # render t (\<lambda>j. op_line j ''/* join */'' # K j) (Suc k)
       @ [else_line k, close_line k]"
  "render (If c t (Some el)) K k =
     if_line k (p_expr c) # render t (\<lambda>j. op_line j ''/* join */'' # K j) (Suc k)
       @ [else_line k] @ render el (\<lambda>j. []) (Suc k) @ [close_line k]"
  "render (While c b) K k =
     if_line k (p_expr c) # render b (\<lambda>j. []) (Suc k)
       @ [else_line k, op_line (Suc k) ''/* after while */''] @ K (Suc k) @ [close_line k]"
  "render (For v lo p5 hi b) K k =
     op_line k (v @ '' = '' @ p_expr lo @ '';'') # if_line k (for_cond v p5 (p_expr hi))
       # render b (\<lambda>j. [op_line j (for_step v p5)]) (Suc k)
       @ [else_line k, op_line (Suc k) ''/* after for */''] @ K (Suc k) @ [close_line k]"
  "render (Repeat bl c) K k =
     render_list bl
       (\<lambda>j. if_line j (p_expr c) # op_line (Suc j) ''/* after repeat */'' # K (Suc j)
              @ [else_line j, close_line j]) k"
  "render (IoWrite p1 es) K k = op_line k (io_code p1 (p_expr_list es)) # K k"
  "render (IoRead p1 vs) K k = op_line k (io_code p1 (p_id_expr_list vs)) # K k"
  "render (Block bl) K k = render_list bl K k"
  "render Empty K k = op_line k ''/* empty */'' # K k"
  "render_list (StmtOne st) K k = render st K k"
  "render_list (StmtMore sl st) K k = render_list sl (render st K) k"
  by (simp_all add: op_line_def if_line_def else_line_def close_line_def for_cond_def for_step_def)

lemma join_not_Nil: "xs \<noteq> [] \<Longrightarrow> last xs \<noteq> [] \<Longrightarrow> join sep xs \<noteq> []"
  by (induction sep xs rule: join.induct) auto

lemma last_join:
  "xs \<noteq> [] \<Longrightarrow> last xs \<noteq> [] \<Longrightarrow> last (join sep xs) = last (last xs)"
  by (induction sep xs rule: join.induct) (auto simp: join_not_Nil)

lemma join_Nil_iff: "join sep xs = [] \<Longrightarrow> xs = [] \<or> hd xs = []"
  by (induction sep xs rule: join.induct) auto

lemma set_join_first: "xs \<noteq> [] \<Longrightarrow> set (hd xs) \<subseteq> set (join sep xs)"
  by (induction sep xs rule: join.induct) auto

lemma p_expr_list_not_Nil [simp]: "p_expr_list es \<noteq> []"
  by (cases es) auto

lemma p_id_expr_list_not_Nil [simp]: "p_id_expr_list vs \<noteq> []"
  by (cases vs) auto

lemma op_text_io_code: "l \<noteq> [] \<Longrightarrow> op_text (io_code p1 l)"
proof (cases "lower p1 = ''writeln'' \<or> lower p1 = ''write''")
  case True
  then show ?thesis by (simp add: io_code_def op_text_def Let_def)
next
  case False
  assume l: "l \<noteq> []"
  let ?f = "\<lambda>v. ''scanf('' @ [CHR 0x22] @ ''%d'' @ [CHR 0x22] @ '', &'' @ v @ '');''"
  let ?xs = "map ?f l"
  have x: "?xs \<noteq> []" "last ?xs \<noteq> []" "hd ?xs \<noteq> []"
    using l by (simp_all add: last_map hd_map)
  have "last (join '' '' ?xs) = CHR '';''"
    using last_join [OF x(1,2)] l by (simp add: last_map)
  moreover have "join '' '' ?xs \<noteq> []"
    using join_Nil_iff [of "'' ''" ?xs] x by auto
  moreover have "CHR ''('' \<in> set (join '' '' ?xs)"
    using set_join_first [OF x(1), of "'' ''"] l by (auto simp: hd_map)
  ultimately show ?thesis
    using False by (auto simp: io_code_def op_text_def Let_def)
qed

lemma op_text_simps [simp]:
  "op_text (v @ '' = '' @ e @ '';'')"
  "op_text ''/* join */''" "op_text ''/* empty */''" "op_text ''/* after while */''"
  "op_text ''/* after for */''" "op_text ''/* after repeat */''"
  "op_text (for_step v p5)"
  "op_text (io_code p1 (p_expr_list es))" "op_text (io_code p1 (p_id_expr_list vs))"
proof -
  show "op_text (v @ '' = '' @ e @ '';'')"
    by (simp add: op_text_def)
  show "op_text ''/* join */''" "op_text ''/* empty */''" "op_text ''/* after while */''"
    "op_text ''/* after for */''" "op_text ''/* after repeat */''"
    by (simp_all add: op_text_def)
  show "op_text (for_step v p5)"
    by (simp add: op_text_def for_step_def)
  show "op_text (io_code p1 (p_expr_list es))" "op_text (io_code p1 (p_id_expr_list vs))"
    by (rule op_text_io_code, simp)+
qed

text \<open>Counting the lines with a property that depends on the shape alone.\<close>

lemma count_render:
  fixes P :: "string \<Rightarrow> bool" and bo bi be bc :: bool
  assumes op: "\<And>k x. op_text x \<Longrightarrow> P (op_line k x) = bo"
    and i: "\<And>k c. P (if_line k c) = bi"
    and e: "\<And>k. P (else_line k) = be"
    and c: "\<And>k. P (close_line k) = bc"
  defines "po \<equiv> (of_bool bo :: nat)" and "pc \<equiv> (of_bool bi + of_bool be + of_bool bc :: nat)"
  shows "(\<And>j. length (filter P (K j)) = m) \<Longrightarrow>
           length (filter P (render st K k)) = po * op_count st + pc * cond_count st + m"
    and "(\<And>j. length (filter P (K j)) = m) \<Longrightarrow>
           length (filter P (render_list sl K k))
             = po * op_count_list sl + pc * cond_count_list sl + m"
proof (induction st and sl arbitrary: K k m and K k m rule: node_count_node_count_list.induct)
  case (1 v e)
  have "P (op_line k (v @ '' = '' @ p_expr e @ '';'')) = bo"
    by (rule op) (rule op_text_simps)
  then show ?case
    using 1 [of k] by (simp add: render_shapes po_def del: render.simps)
next
  case (2 c' t)
  have "length (filter P (render t (\<lambda>j. op_line j ''/* join */'' # K j) (Suc k)))
          = po * op_count t + pc * cond_count t + (po + m)"
    using op [OF op_text_simps(2)] 2(2) by (intro 2(1)) (simp add: po_def)
  then show ?case
    by (simp add: render_shapes algebra_simps i e c po_def pc_def del: render.simps)
next
  case (3 c' t el)
  have "length (filter P (render t (\<lambda>j. op_line j ''/* join */'' # K j) (Suc k)))
          = po * op_count t + pc * cond_count t + (po + m)"
    using op [OF op_text_simps(2)] 3(3) by (intro 3(1)) (simp add: po_def)
  moreover have "length (filter P (render el (\<lambda>j. []) (Suc k)))
          = po * op_count el + pc * cond_count el + 0"
    by (intro 3(2)) simp
  ultimately show ?case
    by (simp add: render_shapes algebra_simps i e c po_def pc_def del: render.simps)
next
  case (4 c' b)
  have "length (filter P (render b (\<lambda>j. []) (Suc k)))
          = po * op_count b + pc * cond_count b + 0"
    by (intro 4(1)) simp
  then show ?case
    using op [OF op_text_simps(4), of "Suc k"] 4(2) [of "Suc k"]
    by (simp add: render_shapes algebra_simps i e c po_def pc_def del: render.simps)
next
  case (5 v lo p5 hi b)
  have "length (filter P (render b (\<lambda>j. [op_line j (for_step v p5)]) (Suc k)))
          = po * op_count b + pc * cond_count b + po"
    using op [OF op_text_simps(7)] by (intro 5(1)) (simp add: po_def)
  moreover have "P (op_line k (v @ '' = '' @ p_expr lo @ '';'')) = bo"
    by (rule op) (rule op_text_simps)
  ultimately show ?case
    using op [OF op_text_simps(5), of "Suc k"] 5(2) [of "Suc k"]
    by (simp add: render_shapes algebra_simps i e c po_def pc_def del: render.simps)
next
  case (6 b c')
  have "length (filter P (render_list b
          (\<lambda>j. if_line j (p_expr c') # op_line (Suc j) ''/* after repeat */'' # K (Suc j)
              @ [else_line j, close_line j]) k))
          = po * op_count_list b + pc * cond_count_list b + (po + pc + m)"
  proof (intro 6(1))
    fix j
    show "length (filter P (if_line j (p_expr c') # op_line (Suc j) ''/* after repeat */''
                   # K (Suc j) @ [else_line j, close_line j])) = po + pc + m"
      using op [OF op_text_simps(6), of "Suc j"] 6(2) [of "Suc j"]
      by (simp add: i e c po_def pc_def)
  qed
  then show ?case
    by (simp add: render_shapes algebra_simps del: render.simps)
next
  case (7 p1 es)
  show ?case
    using op [OF op_text_simps(8), of k p1 es] 7 [of k]
    by (simp add: render_shapes po_def del: render.simps)
next
  case (8 p1 vs)
  show ?case
    using op [OF op_text_simps(9), of k p1 vs] 8 [of k]
    by (simp add: render_shapes po_def del: render.simps)
next
  case (9 b)
  then show ?case by simp
next
  case 10
  show ?case
    using op [OF op_text_simps(3), of k] 10 [of k]
    by (simp add: render_shapes po_def del: render.simps)
next
  case (11 st)
  then show ?case by simp
next
  case (12 sl st)
  have "\<And>j. length (filter P (render st K j))
          = po * op_count st + pc * cond_count st + m"
    using 12(3) by (intro 12(2)) simp
  from 12(1) [of "render st K", OF this] show ?case
    by (simp add: algebra_simps)
qed

text \<open>A property of every shape is a property of every line.\<close>

lemma all_render:
  fixes Q :: "string \<Rightarrow> bool"
  assumes op: "\<And>k x. op_text x \<Longrightarrow> 0 < k \<Longrightarrow> Q (op_line k x)"
    and i: "\<And>k c. 0 < k \<Longrightarrow> Q (if_line k c)"
    and e: "\<And>k. 0 < k \<Longrightarrow> Q (else_line k)"
    and c: "\<And>k. 0 < k \<Longrightarrow> Q (close_line k)"
  shows "(\<And>j. 0 < j \<Longrightarrow> list_all Q (K j)) \<Longrightarrow> 0 < k \<Longrightarrow> list_all Q (render st K k)"
    and "(\<And>j. 0 < j \<Longrightarrow> list_all Q (K j)) \<Longrightarrow> 0 < k \<Longrightarrow> list_all Q (render_list sl K k)"
proof (induction st and sl arbitrary: K k and K k rule: node_count_node_count_list.induct)
  case (1 v e)
  have "Q (op_line k (v @ '' = '' @ p_expr e @ '';''))"
    by (rule op) (use 1 in \<open>simp_all only: op_text_simps\<close>)
  then show ?case
    using 1 by (simp add: render_shapes del: render.simps)
next
  case (2 c' t)
  have "list_all Q (render t (\<lambda>j. op_line j ''/* join */'' # K j) (Suc k))"
    using op [OF op_text_simps(2)] 2(2) by (intro 2(1)) simp_all
  then show ?case
    using 2(3) by (simp add: render_shapes i e c del: render.simps)
next
  case (3 c' t el)
  have "list_all Q (render t (\<lambda>j. op_line j ''/* join */'' # K j) (Suc k))"
    using op [OF op_text_simps(2)] 3(3) by (intro 3(1)) simp_all
  moreover have "list_all Q (render el (\<lambda>j. []) (Suc k))"
    by (intro 3(2)) simp_all
  ultimately show ?case
    using 3(4) by (simp add: render_shapes i e c del: render.simps)
next
  case (4 c' b)
  have "list_all Q (render b (\<lambda>j. []) (Suc k))"
    by (intro 4(1)) simp_all
  then show ?case
    using op [OF op_text_simps(4), of "Suc k"] 4(2) [of "Suc k"] 4(3)
    by (simp add: render_shapes i e c del: render.simps)
next
  case (5 v lo p5 hi b)
  have "list_all Q (render b (\<lambda>j. [op_line j (for_step v p5)]) (Suc k))"
    using op [OF op_text_simps(7)] by (intro 5(1)) simp_all
  moreover have "Q (op_line k (v @ '' = '' @ p_expr lo @ '';''))"
    by (rule op) (use 5 in \<open>simp_all only: op_text_simps\<close>)
  ultimately show ?case
    using op [OF op_text_simps(5), of "Suc k"] 5(2) [of "Suc k"] 5(3)
    by (simp add: render_shapes i e c del: render.simps)
next
  case (6 b c')
  have "list_all Q (render_list b
          (\<lambda>j. if_line j (p_expr c') # op_line (Suc j) ''/* after repeat */'' # K (Suc j)
              @ [else_line j, close_line j]) k)"
  proof (intro 6(1))
    fix j :: nat assume "0 < j"
    then show "list_all Q (if_line j (p_expr c') # op_line (Suc j) ''/* after repeat */''
                   # K (Suc j) @ [else_line j, close_line j])"
      using op [OF op_text_simps(6), of "Suc j"] 6(2) [of "Suc j"]
      by (simp add: i e c)
  qed (rule 6(3))
  then show ?case
    by (simp add: render_shapes del: render.simps)
next
  case (7 p1 es)
  show ?case
    using op [OF op_text_simps(8), of k p1 es] 7
    by (simp add: render_shapes del: render.simps)
next
  case (8 p1 vs)
  show ?case
    using op [OF op_text_simps(9), of k p1 vs] 8
    by (simp add: render_shapes del: render.simps)
next
  case (9 b)
  then show ?case by simp
next
  case 10
  show ?case
    using op [OF op_text_simps(3), of k] 10
    by (simp add: render_shapes del: render.simps)
next
  case (11 st)
  then show ?case by simp
next
  case (12 sl st)
  have "\<And>j. 0 < j \<Longrightarrow> list_all Q (render st K j)"
    using 12(3) by (intro 12(2)) simp_all
  from 12(1) [of "render st K", OF this 12(4)] show ?case
    by simp
qed

lemma ind_Suc: "ind (Suc k) = ''    '' @ ind k"
  by (simp add: ind_def)

lemma lstrip_ind [simp]: "lstrip (ind k @ x) = lstrip x"
  by (induction k) (simp_all add: ind_def lstrip_def is_space_def)

lemma lstrip_Cons: "\<not> is_space c \<Longrightarrow> lstrip (c # s) = c # s"
  by (simp add: lstrip_def)

lemma rev_last: "x \<noteq> [] \<Longrightarrow> rev x = last x # rev (butlast x)"
  by (induction x rule: rev_induct) auto

lemma ends_with_last:
  "x \<noteq> [] \<Longrightarrow> ends_with (suf @ [c]) (p @ x) \<Longrightarrow> last x = c"
  by (auto simp: ends_with_def rev_last)

lemma last_lstrip: "lstrip x \<noteq> [] \<Longrightarrow> last (lstrip x) = last x"
  unfolding lstrip_def
  by (metis append_take_drop_id dropWhile_eq_drop last_appendR)

lemma if_line_facts [simp]:
  "is_if_line (if_line k c)" "\<not> is_if_line (else_line k)" "\<not> is_if_line (close_line k)"
  "op_text x \<Longrightarrow> \<not> is_if_line (op_line k x)"
proof -
  show "is_if_line (if_line k c)"
    by (simp add: is_if_line_def if_line_def ends_with_def lstrip_Cons is_space_def)
  show "\<not> is_if_line (else_line k)"
    by (simp add: is_if_line_def else_line_def lstrip_Cons is_space_def)
  show "\<not> is_if_line (close_line k)"
    by (simp add: is_if_line_def close_line_def lstrip_Cons is_space_def)
  show "\<not> is_if_line (op_line k x)" if "op_text x"
    using that ends_with_last [of x "'') ''" "CHR ''{''" "ind k"]
    by (auto simp: is_if_line_def op_line_def op_text_def)
qed

lemma else_line_facts [simp]:
  "is_else_line (else_line k)" "\<not> is_else_line (if_line k c)" "\<not> is_else_line (close_line k)"
  "op_text x \<Longrightarrow> \<not> is_else_line (op_line k x)"
proof -
  show "is_else_line (else_line k)"
    by (simp add: is_else_line_def else_line_def lstrip_Cons is_space_def)
  show "\<not> is_else_line (if_line k c)"
    by (simp add: is_else_line_def if_line_def lstrip_Cons is_space_def)
  show "\<not> is_else_line (close_line k)"
    by (simp add: is_else_line_def close_line_def lstrip_Cons is_space_def)
  show "\<not> is_else_line (op_line k x)" if "op_text x"
  proof
    assume "is_else_line (op_line k x)"
    then have l: "lstrip x = ''} else {''"
      by (simp add: is_else_line_def op_line_def)
    then have "last x = CHR ''{''"
      using last_lstrip [of x] by simp
    then show False using that by (simp add: op_text_def)
  qed
qed

lemma opens_block_facts [simp]:
  "opens_block (if_line k c)" "opens_block (else_line k)" "\<not> opens_block (close_line k)"
  "op_text x \<Longrightarrow> \<not> opens_block (op_line k x)"
proof -
  show "opens_block (if_line k c)" "opens_block (else_line k)" "\<not> opens_block (close_line k)"
    by (simp_all add: opens_block_def if_line_def else_line_def close_line_def ends_with_def)
  show "\<not> opens_block (op_line k x)" if "op_text x"
    using that ends_with_last [of x "[]" "CHR ''{''" "ind k"]
    by (auto simp: opens_block_def op_line_def op_text_def)
qed

lemma inner_line_facts:
  assumes "0 < k"
  shows "inner_line (if_line k c)" "inner_line (else_line k)" "inner_line (close_line k)"
    "op_text x \<Longrightarrow> inner_line (op_line k x)"
proof -
  obtain j where k: "k = Suc j" using assms by (cases k) auto
  show "inner_line (if_line k c)" "inner_line (else_line k)" "inner_line (close_line k)"
    by (simp_all add: inner_line_def if_line_def else_line_def close_line_def k ind_Suc list_ex_iff)
  show "inner_line (op_line k x)" if "op_text x"
    using that by (auto simp: inner_line_def op_line_def op_text_def k ind_Suc list_ex_iff)
qed

section \<open>Three programs\<close>

lemma c7_text4:
  "translate float_str ln 4 ''begin a := 1; end.'' fresh_process =
     Inr ''#include <stdio.h>\<newline>\<newline>int main() {\<newline>    a = 1;\<newline>    /* empty */\<newline>    return 0;\<newline>}''"
  by code_simp

text \<open>
  C7, as the code has it: the semicolon before \<open>end\<close> is followed by an empty statement,
  which gets a node of its own. The graph of \<open>begin a := 1; end.\<close> is
  Entry \<open>\<rightarrow>\<close> Operation \<open>a = 1;\<close> \<open>\<rightarrow>\<close> Operation \<open>/* empty */\<close> \<open>\<rightarrow>\<close> Exit, four nodes
  and three edges (the nodes are listed by id, each with its successors), and the text
  holds the line \<open>a = 1;\<close>, the marker line, and no conditional.
\<close>

theorem single_assignment_graph_and_text:
  assumes "4 \<le> d"
  shows "built_graph float_str ln ''begin a := 1; end.'' fresh_process =
           Inr (FlowSegment 2 3,
                [Some (OperationNode ''a = 1;'' [1]), Some (OperationNode ''/* empty */'' [3]),
                 Some (StartNode [0]), Some (EndNode [])])
         \<and> translate float_str ln d ''begin a := 1; end.'' fresh_process =
             Inr ''#include <stdio.h>\<newline>\<newline>int main() {\<newline>    a = 1;\<newline>    /* empty */\<newline>    return 0;\<newline>}''
         \<and> occurs_in ''\<newline>    a = 1;\<newline>''
               (output_text (translate float_str ln d ''begin a := 1; end.'' fresh_process))
         \<and> \<not> occurs_in ''if (''
               (output_text (translate float_str ln d ''begin a := 1; end.'' fresh_process))"
proof -
  have g: "built_graph float_str ln ''begin a := 1; end.'' fresh_process =
           Inr (FlowSegment 2 3,
                [Some (OperationNode ''a = 1;'' [1]), Some (OperationNode ''/* empty */'' [3]),
                 Some (StartNode [0]), Some (EndNode [])])"
    by code_simp
  have t: "translate float_str ln d ''begin a := 1; end.'' fresh_process =
             Inr ''#include <stdio.h>\<newline>\<newline>int main() {\<newline>    a = 1;\<newline>    /* empty */\<newline>    return 0;\<newline>}''"
    by (rule translate_mono [OF c7_text4 assms])
  have o: "occurs_in ''\<newline>    a = 1;\<newline>''
             ''#include <stdio.h>\<newline>\<newline>int main() {\<newline>    a = 1;\<newline>    /* empty */\<newline>    return 0;\<newline>}''"
    by code_simp
  have n: "\<not> occurs_in ''if (''
             ''#include <stdio.h>\<newline>\<newline>int main() {\<newline>    a = 1;\<newline>    /* empty */\<newline>    return 0;\<newline>}''"
    by code_simp
  show ?thesis
    unfolding t output_text_def using g o n by simp
qed

theorem single_assignment_graph_and_text_witness:
  "(4::nat) \<le> 4
   \<and> built_graph id 1 ''begin a := 1; end.'' fresh_process =
           Inr (FlowSegment 2 3,
                [Some (OperationNode ''a = 1;'' [1]), Some (OperationNode ''/* empty */'' [3]),
                 Some (StartNode [0]), Some (EndNode [])])
   \<and> translate id 1 4 ''begin a := 1; end.'' fresh_process =
             Inr ''#include <stdio.h>\<newline>\<newline>int main() {\<newline>    a = 1;\<newline>    /* empty */\<newline>    return 0;\<newline>}''"
  using single_assignment_graph_and_text [of 4 id 1] by simp

text \<open>C7 as stated fails: the graph built has a fourth node, the marker of the empty
  statement, between the assignment and the Exit; it is not the graph of three nodes.\<close>

theorem single_assignment_graph_counterexample:
  "built_graph id 1 ''begin a := 1; end.'' fresh_process =
     Inr (FlowSegment 2 3,
          [Some (OperationNode ''a = 1;'' [1]), Some (OperationNode ''/* empty */'' [3]),
           Some (StartNode [0]), Some (EndNode [])])
   \<and> built_graph id 1 ''begin a := 1; end.'' fresh_process \<noteq>
     Inr (FlowSegment 1 2,
          [Some (OperationNode ''a = 1;'' [2]), Some (StartNode [0]), Some (EndNode [])])"
  by code_simp

lemma c3_text6:
  "translate float_str ln 6 ''begin if a > 0 then a := 1 else a := 2; end.'' fresh_process =
     Inr ''#include <stdio.h>\<newline>\<newline>int main() {\<newline>    if ((a > 0)) {\<newline>        a = 1;\<newline>        /* join */\<newline>        /* empty */\<newline>    } else {\<newline>        a = 2;\<newline>    }\<newline>    return 0;\<newline>}''"
  by code_simp

text \<open>
  C3, as the code has it: the walk of the true branch goes on through the join marker
  and the empty statement after the semicolon, so both marker lines stand inside the
  true block. With every run of white space made one blank, the text of
  \<open>begin if a > 0 then a := 1 else a := 2; end.\<close> holds
  \<open>if ((a > 0)) { a = 1; /* join */ /* empty */ } else { a = 2; }\<close>; the else block
  holds the statement \<open>a = 2;\<close> alone.
\<close>

theorem if_else_text:
  assumes "6 \<le> d"
  shows "translate float_str ln d ''begin if a > 0 then a := 1 else a := 2; end.'' fresh_process =
           Inr ''#include <stdio.h>\<newline>\<newline>int main() {\<newline>    if ((a > 0)) {\<newline>        a = 1;\<newline>        /* join */\<newline>        /* empty */\<newline>    } else {\<newline>        a = 2;\<newline>    }\<newline>    return 0;\<newline>}''
         \<and> occurs_in ''if ((a > 0)) { a = 1; /* join */ /* empty */ } else { a = 2; }''
               (one_line (output_text
                  (translate float_str ln d ''begin if a > 0 then a := 1 else a := 2; end.''
                     fresh_process)))"
proof -
  have t: "translate float_str ln d ''begin if a > 0 then a := 1 else a := 2; end.'' fresh_process =
           Inr ''#include <stdio.h>\<newline>\<newline>int main() {\<newline>    if ((a > 0)) {\<newline>        a = 1;\<newline>        /* join */\<newline>        /* empty */\<newline>    } else {\<newline>        a = 2;\<newline>    }\<newline>    return 0;\<newline>}''"
    by (rule translate_mono [OF c3_text6 assms])
  have o: "occurs_in ''if ((a > 0)) { a = 1; /* join */ /* empty */ } else { a = 2; }''
             (one_line ''#include <stdio.h>\<newline>\<newline>int main() {\<newline>    if ((a > 0)) {\<newline>        a = 1;\<newline>        /* join */\<newline>        /* empty */\<newline>    } else {\<newline>        a = 2;\<newline>    }\<newline>    return 0;\<newline>}'')"
    by code_simp
  show ?thesis
    unfolding t output_text_def using o by simp
qed

theorem if_else_text_witness:
  "(6::nat) \<le> 6
   \<and> translate id 1 6 ''begin if a > 0 then a := 1 else a := 2; end.'' fresh_process =
           Inr ''#include <stdio.h>\<newline>\<newline>int main() {\<newline>    if ((a > 0)) {\<newline>        a = 1;\<newline>        /* join */\<newline>        /* empty */\<newline>    } else {\<newline>        a = 2;\<newline>    }\<newline>    return 0;\<newline>}''"
  using if_else_text [of 6 id 1] by simp

text \<open>C3 as stated fails: the text does not hold
  \<open>if ((a > 0)) { a = 1; } else { a = 2; }\<close>, not even with white space put aside,
  since the true block has the two marker lines after \<open>a = 1;\<close>.\<close>

theorem if_else_text_counterexample:
  "\<not> occurs_in ''if ((a > 0)) { a = 1; } else { a = 2; }''
       (one_line (output_text
          (translate id 1 50 ''begin if a > 0 then a := 1 else a := 2; end.'' fresh_process)))
   \<and> \<not> occurs_in ''if ((a > 0)) { a = 1; } else { a = 2; }''
       (output_text
          (translate id 1 50 ''begin if a > 0 then a := 1 else a := 2; end.'' fresh_process))"
  by code_simp

end
